theory Spec2Isabelle
  imports Main
begin

section \<open>Replay memory\<close>

text \<open>
  The exceptions of the Python run time that the modelled code can raise. The script
  has no handler, so a raised exception ends the program: an operation returns either
  the exception (\<open>Inl\<close>) or its result together with the state it leaves (\<open>Inr\<close>).
\<close>

datatype py_error = IndexError | ZeroDivisionError | ValueError | RuntimeError

text \<open>
  \<^verbatim>\<open>Transition = namedtuple('Transition', ('state', 'action', 'next_state', 'reward'))\<close>
  The next state of a final transition is Python's \<^verbatim>\<open>None\<close>.
\<close>

record ('s, 'r) Transition =
  state :: 's
  action :: nat
  next_state :: "'s option"
  reward :: 'r

text \<open>
  \<^verbatim>\<open>class ReplayMemory\<close>: the three attributes set by \<^verbatim>\<open>__init__\<close>. A slot of
  \<^verbatim>\<open>memory\<close> holds \<^verbatim>\<open>None\<close> between the \<^verbatim>\<open>append(None)\<close> and the assignment of
  \<^verbatim>\<open>push\<close>, so slots are optional transitions. Python integers are unbounded: \<open>int\<close>.
\<close>

record 't ReplayMemory =
  capacity :: int
  memory :: "'t option list"
  position :: int

definition ReplayMemory_init :: "int \<Rightarrow> 't ReplayMemory" where
  "ReplayMemory_init c = \<lparr>capacity = c, memory = [], position = 0\<rparr>"

text \<open>
  \<^verbatim>\<open>xs[i] = v\<close> on a Python list: an index from \<open>-len\<close> up to \<open>len - 1\<close> is accepted
  (a negative one counts from the end), any other raises \<^verbatim>\<open>IndexError\<close>.
\<close>

definition list_setitem :: "'a list \<Rightarrow> int \<Rightarrow> 'a \<Rightarrow> py_error + 'a list" where
  "list_setitem xs i v =
     (let n = int (length xs); j = (if i < 0 then n + i else i)
      in if 0 \<le> j \<and> j < n then Inr (xs[nat j := v]) else Inl IndexError)"

text \<open>
  \<^verbatim>\<open>
  def push(self, *args):
      if len(self.memory) < self.capacity:
          self.memory.append(None)
      self.memory[self.position] = Transition(*args)
      self.position = (self.position + 1) % self.capacity
  \<close>
  Python's \<^verbatim>\<open>%\<close> on integers takes the sign of the divisor, as \<open>mod\<close> on \<open>int\<close> does,
  and raises \<^verbatim>\<open>ZeroDivisionError\<close> when the divisor is zero.
\<close>

definition push :: "'t ReplayMemory \<Rightarrow> 't \<Rightarrow> py_error + 't ReplayMemory" where
  "push m t =
     (let mem1 = (if int (length (memory m)) < capacity m then memory m @ [None]
                  else memory m)
      in case list_setitem mem1 (position m) (Some t) of
           Inl e \<Rightarrow> Inl e
         | Inr mem2 \<Rightarrow>
             if capacity m = 0 then Inl ZeroDivisionError
             else Inr (m\<lparr>memory := mem2,
                         position := (position m + 1) mod capacity m\<rparr>))"

text \<open>\<^verbatim>\<open>__len__\<close>.\<close>

definition len :: "'t ReplayMemory \<Rightarrow> nat" where
  "len m = length (memory m)"

text \<open>A sequence of calls of \<^verbatim>\<open>push\<close>, in order; the first exception ends it.\<close>

fun pushes :: "'t ReplayMemory \<Rightarrow> 't list \<Rightarrow> py_error + 't ReplayMemory" where
  "pushes m [] = Inr m"
| "pushes m (t # ts) = (case push m t of Inl e \<Rightarrow> Inl e | Inr m' \<Rightarrow> pushes m' ts)"

subsection \<open>Sampling\<close>

text \<open>
  The random generator is the standard library's and is not part of the script. A call
  \<^verbatim>\<open>_randbelow(b)\<close> (behind \<^verbatim>\<open>randrange\<close> and \<^verbatim>\<open>random.sample\<close>) answers with a number
  of \<^verbatim>\<open>range(b)\<close>. The state of the generator is modelled as the sequence of answers it
  will still give, one to each call; an entry outside the range asked for, which the
  library never delivers, is reduced into it.
\<close>

type_synonym rng = "nat \<Rightarrow> nat"

definition randbelow :: "nat \<Rightarrow> nat \<Rightarrow> nat" where
  "randbelow n u = u mod n"

definition rng_take :: "nat \<Rightarrow> rng \<Rightarrow> nat list" where
  "rng_take k g = map g [0..<k]"

definition rng_drop :: "nat \<Rightarrow> rng \<Rightarrow> rng" where
  "rng_drop k g = (\<lambda>i. g (i + k))"

text \<open>
  \<^verbatim>\<open>random.sample(population, k)\<close> of the library:
  \<^verbatim>\<open>
  n = len(population)
  if not 0 <= k <= n:
      raise ValueError("Sample larger than population or is negative")
  result = [None] * k
  setsize = 21        # size of a small set minus size of an empty list
  if k > 5:
      setsize += 4 ** _ceil(_log(k * 3, 4))  # table size for big sets
  if n <= setsize:
      pool = list(population)
      for i in range(k):
          j = randbelow(n - i)
          result[i] = pool[j]
          pool[j] = pool[n - i - 1]  # move non-selected item into vacancy
  else:
      selected = set()
      selected_add = selected.add
      for i in range(k):
          j = randbelow(n)
          while j in selected:
              j = randbelow(n)
          selected_add(j)
          result[i] = population[j]
  return result
  \<close>
  \<open>ceil_log4 x\<close> is the least \<open>e\<close> with \<open>x \<le> 4 ^ e\<close>, the value of
  \<^verbatim>\<open>_ceil(_log(x, 4))\<close> for \<open>x \<ge> 1\<close>. (The library computes it in floating point; \<open>3 * k\<close>
  is never a power of four, and the two agree for every \<open>k\<close> up to 200000 at least,
  twice the capacity of the script's memory.)
\<close>

fun ceil_log4 :: "nat \<Rightarrow> nat" where
  "ceil_log4 x = (if x \<le> 1 then 0 else 1 + ceil_log4 ((x + 3) div 4))"

declare ceil_log4.simps [simp del]

definition setsize :: "nat \<Rightarrow> nat" where
  "setsize k = (if k > 5 then 21 + 4 ^ ceil_log4 (k * 3) else 21)"

text \<open>
  The first branch. \<open>sample_loop pool m us\<close> is its loop with \<open>m = n - i\<close> entries of
  the pool still selectable and \<open>us\<close> the answers of the generator to the remaining
  iterations.
\<close>

fun sample_loop :: "'a list \<Rightarrow> nat \<Rightarrow> nat list \<Rightarrow> 'a list" where
  "sample_loop pool m [] = []"
| "sample_loop pool m (u # us) =
     (let j = randbelow m u
      in pool ! j # sample_loop (pool[j := pool ! (m - 1)]) (m - 1) us)"

text \<open>
  The second branch. \<open>redraw n selected g\<close> is
  \<^verbatim>\<open>
  j = randbelow(n)
  while j in selected:
      j = randbelow(n)
  \<close>
  It returns \<open>j\<close> and the generator after the draws, and does not return (\<open>None\<close>) when
  the generator answers with selected positions for ever. \<open>select_loop\<close> is the loop
  over \<open>i\<close> with \<open>k\<close> iterations to go.
\<close>

partial_function (option) redraw :: "nat \<Rightarrow> nat set \<Rightarrow> rng \<Rightarrow> (nat \<times> rng) option" where
  "redraw n selected g =
     (let j = randbelow n (g 0); g' = rng_drop 1 g
      in if j \<in> selected then redraw n selected g' else Some (j, g'))"

declare redraw.simps [code]

fun select_loop :: "'a list \<Rightarrow> nat \<Rightarrow> nat set \<Rightarrow> nat \<Rightarrow> rng \<Rightarrow> ('a list \<times> rng) option" where
  "select_loop population n selected 0 g = Some ([], g)"
| "select_loop population n selected (Suc k) g =
     (case redraw n selected g of
        None \<Rightarrow> None
      | Some (j, g') \<Rightarrow>
          (case select_loop population n (insert j selected) k g' of
             None \<Rightarrow> None
           | Some (result, g'') \<Rightarrow> Some (population ! j # result, g'')))"

text \<open>
  The call: \<open>None\<close> when it does not return, otherwise the exception raised or the
  result with the generator left.
\<close>

definition random_sample ::
  "'a list \<Rightarrow> int \<Rightarrow> rng \<Rightarrow> (py_error + ('a list \<times> rng)) option" where
  "random_sample population k g =
     (let n = length population
      in if \<not> (0 \<le> k \<and> k \<le> int n) then Some (Inl ValueError)
         else if n \<le> setsize (nat k)
         then Some (Inr (sample_loop population n (rng_take (nat k) g), rng_drop (nat k) g))
         else map_option Inr (select_loop population n {} (nat k) g))"

text \<open>
  \<^verbatim>\<open>
  def sample(self, batch_size):
      return random.sample(self.memory, batch_size)
  \<close>
\<close>

definition sample ::
  "'t ReplayMemory \<Rightarrow> int \<Rightarrow> rng \<Rightarrow> (py_error + ('t option list \<times> rng)) option" where
  "sample m batch_size g = random_sample (memory m) batch_size g"

subsection \<open>Outcomes of the generator\<close>

text \<open>
  The slots that the first branch picks in a buffer of length \<open>n\<close>, in the order picked:
  its loop run on the list of slot numbers.
\<close>

definition sample_slots :: "nat \<Rightarrow> nat list \<Rightarrow> nat list" where
  "sample_slots n us = sample_loop [0..<n] n us"

text \<open>
  The answers a generator can give to the calls of the first branch when \<open>m\<close> entries are
  selectable: the first below \<open>m\<close>, the next below \<open>m - 1\<close>, and so on; and the answers it
  can give to \<open>l\<close> calls of the second branch, all below \<open>n\<close>. By the contract of
  \<^verbatim>\<open>_randbelow\<close> the answers to a given sequence of calls are equally probable.
\<close>

fun admissible :: "nat \<Rightarrow> nat list \<Rightarrow> bool" where
  "admissible m [] = True"
| "admissible m (u # us) = (u < m \<and> admissible (m - 1) us)"

definition draws :: "nat \<Rightarrow> nat \<Rightarrow> nat list set" where
  "draws n k = {us. length us = k \<and> admissible n us}"

definition answers :: "nat \<Rightarrow> nat \<Rightarrow> nat list set" where
  "answers n l = {us. length us = l \<and> (\<forall>u \<in> set us. u < n)}"

text \<open>A generator that first gives the answers \<open>us\<close> and then goes on as \<open>g\<close>.\<close>

definition rng_prepend :: "nat list \<Rightarrow> rng \<Rightarrow> rng" where
  "rng_prepend us g = (\<lambda>i. if i < length us then us ! i else g (i - length us))"

text \<open>
  The answers \<open>us\<close> decide a sample of size \<open>k\<close> from a buffer of length \<open>n\<close>: however the
  generator goes on after them, the call on the list of slot numbers returns the slots
  \<open>slots\<close> and has used \<open>c\<close> answers.
\<close>

definition decides :: "nat \<Rightarrow> int \<Rightarrow> nat list \<Rightarrow> nat list \<Rightarrow> nat \<Rightarrow> bool" where
  "decides n k us slots c \<longleftrightarrow>
     (\<forall>g. random_sample [0..<n] k (rng_prepend us g)
            = Some (Inr (slots, rng_drop c (rng_prepend us g))))"

text \<open>
  A generator that gives every position below \<open>n\<close> again and again. A generator that
  does not may keep the second branch redrawing for ever.
\<close>

definition fair :: "nat \<Rightarrow> rng \<Rightarrow> bool" where
  "fair n g \<longleftrightarrow> (\<forall>v < n. \<forall>p. \<exists>q \<ge> p. randbelow n (g q) = v)"

text \<open>
  Renaming the positions below \<open>n\<close> by \<open>f\<close> in an entry of the generator: the position
  the entry reduces to is renamed, the rest of the entry is kept.
\<close>

definition relabel :: "(nat \<Rightarrow> nat) \<Rightarrow> nat \<Rightarrow> nat \<Rightarrow> nat" where
  "relabel f n u = f (u mod n) + n * (u div n)"

section \<open>Training\<close>

subsection \<open>Hyperparameters and state\<close>

definition BATCH_SIZE :: nat where "BATCH_SIZE = 256"

definition TARGET_UPDATE :: nat where "TARGET_UPDATE = 200"

text \<open>
  What the script writes to disk: a dump of a network's parameters (\<^verbatim>\<open>torch.save\<close> of a
  \<^verbatim>\<open>state_dict()\<close>) or the figure drawn from a list of episode durations
  (\<^verbatim>\<open>plt.savefig\<close>).
\<close>

datatype 'net file_content = Weights 'net | Figure "nat list"

text \<open>
  The global variables of the script. \<open>'net\<close> is the parameter set of a network
  (its \<^verbatim>\<open>state_dict\<close>), \<open>'opt\<close> the state of the optimizer; \<open>files\<close> is the list of
  files written so far, oldest first.
\<close>

record ('net, 'opt, 's, 'r) dqn =
  policy_net :: 'net
  target_net :: 'net
  optimizer :: 'opt
  replay_memory :: "('s, 'r) Transition ReplayMemory"
  steps_done :: nat
  episode_durations :: "nat list"
  files :: "(string \<times> 'net file_content) list"
  generator :: rng

text \<open>
  The state in which the training loop starts: both networks with the parameters of the
  freshly created policy network (\<^verbatim>\<open>target_net.load_state_dict(policy_net.state_dict())\<close>),
  \<^verbatim>\<open>memory = ReplayMemory(100000)\<close>, \<^verbatim>\<open>steps_done = 0\<close>,
  \<^verbatim>\<open>episode_durations = []\<close>, and no file written.
\<close>

definition initial_state :: "'net \<Rightarrow> 'opt \<Rightarrow> rng \<Rightarrow> ('net, 'opt, 's, 'r) dqn" where
  "initial_state net opt g =
     \<lparr>policy_net = net, target_net = net, optimizer = opt,
      replay_memory = ReplayMemory_init 100000, steps_done = 0,
      episode_durations = [], files = [], generator = g\<rparr>"

subsection \<open>Action selection\<close>

text \<open>
  \<^verbatim>\<open>t.max(1)[1]\<close> on the one-row output of the network: the index of the first maximal
  entry of the row. An empty row has no maximum and raises.
\<close>

fun argmax_from :: "nat \<Rightarrow> 'f::linorder \<Rightarrow> nat \<Rightarrow> 'f list \<Rightarrow> nat" where
  "argmax_from b bv i [] = b"
| "argmax_from b bv i (x # xs) =
     (if x > bv then argmax_from i x (Suc i) xs else argmax_from b bv (Suc i) xs)"

definition argmax :: "'f::linorder list \<Rightarrow> py_error + nat" where
  "argmax row = (case row of [] \<Rightarrow> Inl RuntimeError | q # qs \<Rightarrow> Inr (argmax_from 0 q 1 qs))"

text \<open>
  \<^verbatim>\<open>
  def select_action(state):
      global steps_done
      sample = random.random()
      eps_threshold = EPS_END + (EPS_START - EPS_END) * \
          math.exp(-1. * steps_done / EPS_DECAY)
      steps_done += 1
      if sample > eps_threshold:
          with torch.no_grad():
              return policy_net(state).max(1)[1].view(1, 1)
      else:
          return torch.tensor([[random.randrange(2)]], device=device, dtype=torch.long)
  \<close>
  The arithmetic is in double precision, which is not modelled: the type \<open>'f\<close> stands
  for the floating-point numbers, \<open>eps_threshold n\<close> for the value the expression has
  when \<^verbatim>\<open>steps_done\<close> is \<open>n\<close>, \<open>random_float u\<close> for the number \<^verbatim>\<open>random.random()\<close>
  makes of the raw draw \<open>u\<close>, and \<open>forward net st\<close> for the row of outputs of the
  network with parameters \<open>net\<close> on the state \<open>st\<close>.
\<close>

definition select_action ::
  "(nat \<Rightarrow> 'f::linorder) \<Rightarrow> (nat \<Rightarrow> 'f) \<Rightarrow> ('net \<Rightarrow> 's \<Rightarrow> 'f list) \<Rightarrow> 's \<Rightarrow>
   ('net, 'opt, 's, 'r) dqn \<Rightarrow> py_error + (nat \<times> ('net, 'opt, 's, 'r) dqn)" where
  "select_action eps_threshold random_float forward st s =
     (let sample_f = random_float (generator s 0);
          thr = eps_threshold (steps_done s);
          s1 = s\<lparr>steps_done := steps_done s + 1, generator := rng_drop 1 (generator s)\<rparr>
      in if sample_f > thr then
           (case argmax (forward (policy_net s1) st) of
              Inl e \<Rightarrow> Inl e
            | Inr a \<Rightarrow> Inr (a, s1))
         else Inr (randbelow 2 (generator s1 0),
                   s1\<lparr>generator := rng_drop 1 (generator s1)\<rparr>))"

text \<open>
  The action the training loop passes to \<^verbatim>\<open>env.step\<close>:
  \<^verbatim>\<open>
  action = select_action(state)
  Action = action.item()
  Action += 2
  \<close>
\<close>

definition env_action :: "nat \<Rightarrow> nat" where
  "env_action a = a + 2"

subsection \<open>File names\<close>

text \<open>\<^verbatim>\<open>str(n)\<close> for a non-negative integer: its decimal digits.\<close>

definition digit_char :: "nat \<Rightarrow> char" where
  "digit_char d = ''0123456789'' ! d"

function str :: "nat \<Rightarrow> string" where
  "str n = (if n < 10 then [digit_char n] else str (n div 10) @ [digit_char (n mod 10)])"
  by pat_completeness auto
termination
  by (relation "measure id") auto

declare str.simps [simp del]

subsection \<open>Plotting\<close>

text \<open>
  \<^verbatim>\<open>plot_durations\<close> draws the figure of \<^verbatim>\<open>episode_durations\<close> on screen and ends with
  \<^verbatim>\<open>
  if len(durations_t) % 10 == 0:
      plt.savefig('Duration_' + str(len(durations_t)) + '.png')
  \<close>
  where \<^verbatim>\<open>durations_t\<close> is the tensor of \<^verbatim>\<open>episode_durations\<close>. Only the file is state.
\<close>

definition plot_durations :: "('net, 'opt, 's, 'r) dqn \<Rightarrow> ('net, 'opt, 's, 'r) dqn" where
  "plot_durations s =
     (let n = length (episode_durations s)
      in if n mod 10 = 0
         then s\<lparr>files := files s @
                  [(''Duration_'' @ str n @ ''.png'', Figure (episode_durations s))]\<rparr>
         else s)"

text \<open>
  The end of an episode in the inner loop, after \<open>t + 1\<close> steps:
  \<^verbatim>\<open>
  if done:
      episode_durations.append(t + 1)
      plot_durations()
      break
  \<close>
\<close>

definition record_duration ::
  "nat \<Rightarrow> ('net, 'opt, 's, 'r) dqn \<Rightarrow> ('net, 'opt, 's, 'r) dqn" where
  "record_duration t s =
     plot_durations (s\<lparr>episode_durations := episode_durations s @ [t + 1]\<rparr>)"

subsection \<open>Optimisation step\<close>

text \<open>
  \<^verbatim>\<open>
  def optimize_model():
      if len(memory) < BATCH_SIZE:
          return
      transitions = memory.sample(BATCH_SIZE)
      ...
      optimizer.step()
  \<close>
  Everything after the sampling is tensor computation of the library on the batch, the
  two networks and the optimizer; it updates the policy network and the optimizer, or
  raises. It is the parameter \<open>gradient_step\<close>. The result is \<open>None\<close> when the
  sampling does not return.
\<close>

definition optimize_model ::
  "(('s, 'r) Transition option list \<Rightarrow> 'net \<Rightarrow> 'net \<Rightarrow> 'opt \<Rightarrow> py_error + ('net \<times> 'opt)) \<Rightarrow>
   ('net, 'opt, 's, 'r) dqn \<Rightarrow> (py_error + ('net, 'opt, 's, 'r) dqn) option" where
  "optimize_model gradient_step s =
     (if len (replay_memory s) < BATCH_SIZE then Some (Inr s)
      else case sample (replay_memory s) (int BATCH_SIZE) (generator s) of
             None \<Rightarrow> None
           | Some (Inl e) \<Rightarrow> Some (Inl e)
           | Some (Inr (transitions, g)) \<Rightarrow>
               (case gradient_step transitions (policy_net s) (target_net s) (optimizer s) of
                  Inl e \<Rightarrow> Some (Inl e)
                | Inr (net, opt) \<Rightarrow>
                    Some (Inr (s\<lparr>policy_net := net, optimizer := opt, generator := g\<rparr>))))"

subsection \<open>End of an episode\<close>

text \<open>
  The last statements of the body of the loop over \<^verbatim>\<open>i_episode\<close>:
  \<^verbatim>\<open>
  if i_episode % TARGET_UPDATE == 0:
      target_net.load_state_dict(policy_net.state_dict())

  if i_episode % 1000 == 0:
      torch.save(policy_net.state_dict(), 'policy_net_' + str(i_episode) + '.pth')
      torch.save(target_net.state_dict(), 'target_net_' + str(i_episode) + '.pth')
  \<close>
\<close>

definition sync_target ::
  "nat \<Rightarrow> ('net, 'opt, 's, 'r) dqn \<Rightarrow> ('net, 'opt, 's, 'r) dqn" where
  "sync_target i s = (if i mod TARGET_UPDATE = 0 then s\<lparr>target_net := policy_net s\<rparr> else s)"

definition save_checkpoint ::
  "nat \<Rightarrow> ('net, 'opt, 's, 'r) dqn \<Rightarrow> ('net, 'opt, 's, 'r) dqn" where
  "save_checkpoint i s =
     (if i mod 1000 = 0
      then s\<lparr>files := files s @
               [(''policy_net_'' @ str i @ ''.pth'', Weights (policy_net s)),
                (''target_net_'' @ str i @ ''.pth'', Weights (target_net s))]\<rparr>
      else s)"

definition end_of_episode ::
  "nat \<Rightarrow> ('net, 'opt, 's, 'r) dqn \<Rightarrow> ('net, 'opt, 's, 'r) dqn" where
  "end_of_episode i s = save_checkpoint i (sync_target i s)"

section \<open>Invariant of the replay memory\<close>

text \<open>
  What holds of a memory created with capacity \<open>c\<close> after \<open>n\<close> pushes: the length is
  the smaller of \<open>n\<close> and \<open>c\<close>, and \<open>position\<close> is \<open>n mod c\<close>.
\<close>

definition ring_inv :: "int \<Rightarrow> nat \<Rightarrow> 't ReplayMemory \<Rightarrow> bool" where
  "ring_inv c n m \<longleftrightarrow>
     capacity m = c \<and> int (len m) = min (int n) c \<and> position m = int n mod c"

text \<open>
  What the slots hold after the pushes \<open>ts\<close>: each of the last \<open>c\<close> pushes, the
  \<open>k\<close>-th one in slot \<open>k mod c\<close>.
\<close>

definition ring_contents :: "int \<Rightarrow> 't list \<Rightarrow> 't ReplayMemory \<Rightarrow> bool" where
  "ring_contents c ts m \<longleftrightarrow>
     (\<forall>k < length ts. length ts \<le> k + nat c \<longrightarrow>
        memory m ! (k mod nat c) = Some (ts ! k))"

section \<open>Properties of the replay memory\<close>

lemma pushes_snoc:
  "pushes m (ts @ [t]) = (case pushes m ts of Inl e \<Rightarrow> Inl e | Inr m' \<Rightarrow> push m' t)"
  by (induction ts arbitrary: m) (auto split: sum.splits)

lemma ring_inv_init: "0 < c \<Longrightarrow> ring_inv c 0 (ReplayMemory_init c)"
  by (simp add: ring_inv_def ReplayMemory_init_def len_def)

lemma ring_inv_position_bounds:
  assumes "0 < c" and "ring_inv c n m"
  shows "0 \<le> position m" and "position m < c"
    and "int (len m) < c \<Longrightarrow> position m = int (len m)"
proof -
  from assms show "0 \<le> position m" by (simp add: ring_inv_def)
  from assms show "position m < c" by (simp add: ring_inv_def)
  assume "int (len m) < c"
  with assms have "int n < c" by (auto simp: ring_inv_def min_def split: if_splits)
  with assms show "position m = int (len m)"
    by (auto simp: ring_inv_def min_def)
qed

lemma push_ring_inv:
  assumes c: "0 < c" and inv: "ring_inv c n m"
  shows "\<exists>m'. push m t = Inr m' \<and> ring_inv c (Suc n) m' \<and>
           m' = m\<lparr>memory := (if int (len m) < c then memory m @ [None] else memory m)
                              [nat (position m) := Some t],
                   position := (position m + 1) mod c\<rparr>"
proof -
  have cap: "capacity m = c" using inv by (simp add: ring_inv_def)
  have p0: "0 \<le> position m" and pc: "position m < c"
    using ring_inv_position_bounds[OF c inv] by simp_all
  have llen: "int (len m) = min (int n) c" using inv by (simp add: ring_inv_def)
  have pn: "position m = int n mod c" using inv by (simp add: ring_inv_def)
  let ?mem1 = "if int (len m) < c then memory m @ [None] else memory m"
  have inrange: "position m < int (length ?mem1)"
  proof (cases "int (len m) < c")
    case True
    then show ?thesis
      using ring_inv_position_bounds(3)[OF c inv] by (simp add: len_def)
  next
    case False
    with llen have "int (len m) = c" by (simp add: min_def split: if_splits)
    with pc False show ?thesis by (simp add: len_def)
  qed
  have set: "list_setitem ?mem1 (position m) (Some t) = Inr (?mem1[nat (position m) := Some t])"
    using p0 inrange by (simp add: list_setitem_def Let_def)
  let ?m' = "m\<lparr>memory := ?mem1[nat (position m) := Some t],
                 position := (position m + 1) mod c\<rparr>"
  have push: "push m t = Inr ?m'"
    using set c cap by (simp add: push_def Let_def len_def)
  have "int (len ?m') = min (int (Suc n)) c"
    using llen by (auto simp: len_def min_def split: if_splits)
  moreover have "position ?m' = int (Suc n) mod c"
    using pn by (simp add: mod_add_right_eq add.commute)
  ultimately have "ring_inv c (Suc n) ?m'"
    using cap by (simp add: ring_inv_def)
  with push show ?thesis by blast
qed

lemma pushes_ring_inv:
  assumes "0 < c"
  shows "\<exists>m. pushes (ReplayMemory_init c) ts = Inr m \<and> ring_inv c (length ts) m"
proof (induction ts rule: rev_induct)
  case Nil
  then show ?case using ring_inv_init[OF assms] by simp
next
  case (snoc t ts)
  then obtain m where m: "pushes (ReplayMemory_init c) ts = Inr m"
    and inv: "ring_inv c (length ts) m" by blast
  from push_ring_inv[OF assms inv, of t] obtain m' where
    "push m t = Inr m'" "ring_inv c (Suc (length ts)) m'" by blast
  with m show ?case by (simp add: pushes_snoc)
qed

lemma mod_neq_in_window:
  fixes k n c :: nat
  assumes "k < n" and "n < k + c"
  shows "k mod c \<noteq> n mod c"
proof
  assume "k mod c = n mod c"
  then have "(n - k) mod c = 0"
    using assms(1) by (metis mod_eq_dvd_iff_nat less_imp_le dvd_imp_mod_0)
  moreover have "0 < n - k" "n - k < c" using assms by simp_all
  ultimately show False by simp
qed

lemma push_ring_contents:
  assumes c: "0 < c" and inv: "ring_inv c (length ts) m" and con: "ring_contents c ts m"
    and push: "push m t = Inr m'"
  shows "ring_contents c (ts @ [t]) m'"
proof -
  let ?n = "length ts"
  let ?mem1 = "if int (len m) < c then memory m @ [None] else memory m"
  from push_ring_inv[OF c inv, of t] push
  have m': "m' = m\<lparr>memory := ?mem1[nat (position m) := Some t],
                     position := (position m + 1) mod c\<rparr>" by auto
  have pos: "nat (position m) = ?n mod nat c"
    using inv c by (simp add: ring_inv_def nat_mod_distrib)
  have llen: "len m = min ?n (nat c)"
    using inv c by (auto simp: ring_inv_def min_def split: if_splits)
  have len1: "?n mod nat c < length ?mem1"
  proof (cases "?n < nat c")
    case True
    then show ?thesis using llen c by (auto simp: len_def)
  next
    case False
    then have "len m = nat c" using llen by simp
    moreover have "?n mod nat c < nat c" using c by simp
    ultimately show ?thesis using c by (auto simp: len_def)
  qed
  show ?thesis
    unfolding ring_contents_def
  proof (intro allI impI)
    fix k
    assume k: "k < length (ts @ [t])" and win: "length (ts @ [t]) \<le> k + nat c"
    show "memory m' ! (k mod nat c) = Some ((ts @ [t]) ! k)"
    proof (cases "k = ?n")
      case True
      then show ?thesis using m' pos len1 by simp
    next
      case False
      with k have kn: "k < ?n" by simp
      from win have win': "?n < k + nat c" by simp
      have ne: "k mod nat c \<noteq> ?n mod nat c" by (rule mod_neq_in_window[OF kn win'])
      have "k mod nat c < len m"
      proof -
        have "k mod nat c < nat c" using c by simp
        moreover have "k mod nat c \<le> k" by simp
        then have "k mod nat c < length ts" using kn by (rule le_less_trans)
        ultimately show ?thesis using llen by simp
      qed
      then have "?mem1 ! (k mod nat c) = memory m ! (k mod nat c)"
        by (simp add: len_def nth_append)
      moreover have "memory m ! (k mod nat c) = Some (ts ! k)"
        using con kn win' by (simp add: ring_contents_def)
      ultimately show ?thesis using m' pos ne kn by (simp add: nth_append)
    qed
  qed
qed

lemma pushes_ring:
  assumes "0 < c"
  shows "\<exists>m. pushes (ReplayMemory_init c) ts = Inr m \<and> ring_inv c (length ts) m
             \<and> ring_contents c ts m"
proof (induction ts rule: rev_induct)
  case Nil
  then show ?case using ring_inv_init[OF assms] by (simp add: ring_contents_def)
next
  case (snoc t ts)
  then obtain m where m: "pushes (ReplayMemory_init c) ts = Inr m"
    and inv: "ring_inv c (length ts) m" and con: "ring_contents c ts m" by blast
  from push_ring_inv[OF assms inv, of t] obtain m' where
    p: "push m t = Inr m'" and inv': "ring_inv c (Suc (length ts)) m'" by blast
  from push_ring_contents[OF assms inv con p] have "ring_contents c (ts @ [t]) m'" .
  with m p inv' show ?case by (simp add: pushes_snoc)
qed

subsection \<open>Claims on the replay memory\<close>

text \<open>
  C1. A memory created with a capacity \<open>c > 0\<close> takes any sequence of pushes without
  raising, and its length never exceeds \<open>c\<close>; a further push adds exactly one slot
  while the length is below \<open>c\<close> and leaves the length as it is once it equals \<open>c\<close>.
\<close>

theorem C1_len_never_exceeds_capacity:
  assumes "0 < c"
  shows "\<exists>m. pushes (ReplayMemory_init c) ts = Inr m \<and> int (len m) \<le> c \<and>
           (\<exists>m'. push m t = Inr m' \<and>
              (int (len m) < c \<longrightarrow> len m' = len m + 1) \<and>
              (int (len m) = c \<longrightarrow> len m' = len m))"
proof -
  from pushes_ring_inv[OF assms, of ts] obtain m where
    m: "pushes (ReplayMemory_init c) ts = Inr m" and inv: "ring_inv c (length ts) m" by blast
  from push_ring_inv[OF assms inv, of t] obtain m' where
    p: "push m t = Inr m'"
    and m': "m' = m\<lparr>memory := (if int (len m) < c then memory m @ [None] else memory m)
                              [nat (position m) := Some t],
                   position := (position m + 1) mod c\<rparr>" by blast
  have "int (len m) \<le> c" using inv by (simp add: ring_inv_def)
  moreover have "int (len m) < c \<longrightarrow> len m' = len m + 1"
    using m' by (simp add: len_def)
  moreover have "int (len m) = c \<longrightarrow> len m' = len m"
    using m' by (simp add: len_def)
  ultimately show ?thesis using m p by blast
qed

theorem C1_witness:
  "0 < (2::int) \<and>
   (\<exists>m. pushes (ReplayMemory_init 2) [10, 20, 30 :: nat] = Inr m \<and> int (len m) \<le> 2 \<and>
      (\<exists>m'. push m 40 = Inr m' \<and>
         (int (len m) < 2 \<longrightarrow> len m' = len m + 1) \<and>
         (int (len m) = 2 \<longrightarrow> len m' = len m)))"
proof -
  have h: "0 < (2::int)" by simp
  show ?thesis
    using h C1_len_never_exceeds_capacity [OF h, of "[10, 20, 30 :: nat]" 40] by simp
qed

text \<open>
  C2. Once a memory of capacity \<open>c > 0\<close> is full (at least \<open>c\<close> pushes), it holds the
  last \<open>c\<close> pushes, the \<open>k\<close>-th in slot \<open>k mod c\<close>; \<open>position\<close> is the number of
  pushes modulo \<open>c\<close> and its slot holds the oldest push still stored. The next push
  overwrites that slot, changes no other, and moves \<open>position\<close> to
  \<open>(position + 1) mod c\<close>. Sampling does not enter: the slot is fixed by the count
  of pushes alone.
\<close>

theorem C2_oldest_entry_evicted:
  assumes "0 < c" and "nat c \<le> length ts"
  shows "\<exists>m. pushes (ReplayMemory_init c) ts = Inr m \<and> len m = nat c \<and>
           position m = int (length ts) mod c \<and>
           (\<forall>k < length ts. length ts \<le> k + nat c \<longrightarrow>
              memory m ! (k mod nat c) = Some (ts ! k)) \<and>
           memory m ! nat (position m) = Some (ts ! (length ts - nat c)) \<and>
           push m t = Inr (m\<lparr>memory := (memory m)[nat (position m) := Some t],
                               position := (position m + 1) mod c\<rparr>)"
proof -
  let ?n = "length ts"
  from pushes_ring[OF assms(1), of ts] obtain m where
    m: "pushes (ReplayMemory_init c) ts = Inr m" and inv: "ring_inv c ?n m"
    and con: "ring_contents c ts m" by blast
  have full: "len m = nat c"
    using inv assms by (auto simp: ring_inv_def min_def split: if_splits)
  have pos: "position m = int ?n mod c" using inv by (simp add: ring_inv_def)
  have all: "\<forall>k < ?n. ?n \<le> k + nat c \<longrightarrow> memory m ! (k mod nat c) = Some (ts ! k)"
    using con by (simp add: ring_contents_def)
  have npos: "nat (position m) = ?n mod nat c"
    using pos assms(1) by (simp add: nat_mod_distrib)
  have old: "memory m ! nat (position m) = Some (ts ! (?n - nat c))"
  proof -
    have "?n - nat c < ?n" using assms by simp
    moreover have "?n \<le> (?n - nat c) + nat c" by simp
    ultimately have "memory m ! ((?n - nat c) mod nat c) = Some (ts ! (?n - nat c))"
      using all by blast
    moreover have "(?n - nat c) mod nat c = ?n mod nat c"
      using assms(2) by (simp add: le_mod_geq)
    ultimately show ?thesis using npos by simp
  qed
  from push_ring_inv[OF assms(1) inv, of t] full assms(1)
  have "push m t = Inr (m\<lparr>memory := (memory m)[nat (position m) := Some t],
                           position := (position m + 1) mod c\<rparr>)"
    by auto
  with m full pos all old show ?thesis by blast
qed

theorem C2_witness:
  "0 < (2::int) \<and> nat 2 \<le> length [10, 20, 30 :: nat] \<and>
   (\<exists>m. pushes (ReplayMemory_init 2) [10, 20, 30 :: nat] = Inr m \<and> len m = nat 2 \<and>
      position m = int (length [10, 20, 30 :: nat]) mod 2 \<and>
      (\<forall>k < length [10, 20, 30 :: nat]. length [10, 20, 30 :: nat] \<le> k + nat 2 \<longrightarrow>
         memory m ! (k mod nat 2) = Some ([10, 20, 30] ! k)) \<and>
      memory m ! nat (position m) = Some ([10, 20, 30] ! (length [10, 20, 30 :: nat] - nat 2)) \<and>
      push m 40 = Inr (m\<lparr>memory := (memory m)[nat (position m) := Some 40],
                          position := (position m + 1) mod 2\<rparr>))"
proof -
  have h1: "0 < (2::int)" by simp
  have h2: "nat 2 \<le> length [10, 20, 30 :: nat]" by simp
  show ?thesis
    using h1 h2 C2_oldest_entry_evicted [OF h1 h2, of 40] by blast
qed

subsection \<open>Selection from the pool\<close>

lemma admissible_length: "admissible m us \<Longrightarrow> length us \<le> m"
proof (induction us arbitrary: m)
  case Nil
  then show ?case by simp
next
  case (Cons u us)
  then have "u < m" and "length us \<le> m - 1" by auto
  then show ?case by simp
qed

lemma length_sample_loop [simp]: "length (sample_loop pool m us) = length us"
  by (induction us arbitrary: pool m) (auto simp: Let_def)

lemma sample_loop_map:
  "length us \<le> m \<Longrightarrow> m \<le> length xs \<Longrightarrow>
   sample_loop (map f xs) m us = map f (sample_loop xs m us)"
proof (induction us arbitrary: xs m)
  case Nil
  then show ?case by simp
next
  case (Cons u us)
  then have m: "0 < m" by auto
  then have j: "randbelow m u < m" by (simp add: randbelow_def)
  with Cons.prems have jl: "randbelow m u < length xs" and ml: "m - 1 < length xs" by auto
  have "sample_loop (map f (xs[randbelow m u := xs ! (m - 1)])) (m - 1) us
        = map f (sample_loop (xs[randbelow m u := xs ! (m - 1)]) (m - 1) us)"
    using Cons.prems by (intro Cons.IH) auto
  then show ?case using jl ml by (simp add: Let_def map_update)
qed

lemma pool_step:
  assumes d: "distinct (take m pool)" and ml: "m \<le> length pool" and j: "j < m"
  shows "distinct (take (m - 1) (pool[j := pool ! (m - 1)]))"
    and "set (take (m - 1) (pool[j := pool ! (m - 1)])) = set (take m pool) - {pool ! j}"
proof -
  let ?ys = "take (m - 1) pool"
  let ?l = "pool ! (m - 1)"
  have m0: "0 < m" using j by simp
  have "m - 1 < length pool" using m0 ml by simp
  from take_Suc_conv_app_nth[OF this] have split: "take m pool = ?ys @ [?l]"
    using m0 by simp
  have "distinct (?ys @ [?l])" using d unfolding split .
  then have dys: "distinct ?ys" and lnot: "?l \<notin> set ?ys"
    by simp_all
  have lys: "length ?ys = m - 1" using ml by simp
  have upd: "take (m - 1) (pool[j := ?l]) = ?ys[j := ?l]"
    by (rule take_update_swap)
  show "distinct (take (m - 1) (pool[j := ?l]))"
    unfolding upd using dys lnot by (intro distinct_list_update) auto
  show "set (take (m - 1) (pool[j := ?l])) = set (take m pool) - {pool ! j}"
  proof (cases "j = m - 1")
    case True
    then have "?ys[j := ?l] = ?ys" using lys by (intro list_update_beyond) simp
    moreover have "set (take m pool) - {pool ! j} = set ?ys"
      using split lnot True by auto
    ultimately show ?thesis unfolding upd by simp
  next
    case False
    with j have jm: "j < m - 1" by simp
    then have jl: "j < length ?ys" using lys by (simp only:)
    have pj: "?ys ! j = pool ! j" using jm by (rule nth_take)
    have s0: "set (?ys[j := ?l]) = insert ?l (set ?ys - {?ys ! j})"
      using dys jl by (rule set_update_distinct)
    have "?ys ! j \<in> set ?ys" using jl by (rule nth_mem)
    then have mem: "pool ! j \<in> set ?ys" by (simp only: pj)
    have ne: "pool ! j \<noteq> ?l"
    proof
      assume "pool ! j = ?l"
      with mem have "?l \<in> set ?ys" by (simp only:)
      with lnot show False by (rule notE)
    qed
    have s1: "set (take m pool) = insert ?l (set ?ys)"
      by (simp only: split set_append list.set Un_insert_right Un_empty_right)
    have "set (take (m - 1) (pool[j := ?l])) = insert ?l (set ?ys - {pool ! j})"
      using s0 by (simp only: upd pj)
    also have "\<dots> = insert ?l (set ?ys) - {pool ! j}" using ne by blast
    also have "\<dots> = set (take m pool) - {pool ! j}" by (simp only: s1)
    finally show ?thesis .
  qed
qed

lemma sample_loop_distinct:
  assumes "distinct (take m pool)" and "m \<le> length pool" and "length us \<le> m"
  shows "distinct (sample_loop pool m us) \<and> set (sample_loop pool m us) \<subseteq> set (take m pool)"
  using assms
proof (induction us arbitrary: pool m)
  case Nil
  then show ?case by simp
next
  case (Cons u us)
  let ?j = "randbelow m u"
  let ?pool = "pool[?j := pool ! (m - 1)]"
  have m0: "0 < m" using Cons.prems by auto
  then have j: "?j < m" by (simp add: randbelow_def)
  note step = pool_step[OF Cons.prems(1) Cons.prems(2) j]
  have ih: "distinct (sample_loop ?pool (m - 1) us) \<and>
            set (sample_loop ?pool (m - 1) us) \<subseteq> set (take (m - 1) ?pool)"
    using Cons.prems step(1) by (intro Cons.IH) auto
  have "pool ! ?j \<in> set (take m pool)"
    using j Cons.prems(2) by (metis length_take min.absorb2 nth_mem nth_take)
  then show ?case using ih step(2) by (auto simp: Let_def)
qed

lemma sample_loop_inj:
  assumes "distinct (take m pool)" and "m \<le> length pool"
    and "admissible m us" and "admissible m vs" and "length us = length vs"
    and "sample_loop pool m us = sample_loop pool m vs"
  shows "us = vs"
  using assms
proof (induction us arbitrary: pool m vs)
  case Nil
  then show ?case by simp
next
  case (Cons u us)
  then obtain v vs' where vs: "vs = v # vs'" by (cases vs) auto
  have u: "u < m" and v: "v < m" using Cons.prems vs by auto
  then have ru: "randbelow m u = u" and rv: "randbelow m v = v"
    by (simp_all add: randbelow_def)
  have "pool ! u = pool ! v"
    using Cons.prems(6) vs ru rv by (simp add: Let_def)
  then have eq: "take m pool ! u = take m pool ! v" using u v by simp
  have lu: "u < length (take m pool)" and lv: "v < length (take m pool)"
    using u v Cons.prems(2) by simp_all
  have uv: "u = v"
    by (rule iffD1[OF nth_eq_iff_index_eq[OF Cons.prems(1) lu lv] eq])
  note step = pool_step[OF Cons.prems(1) Cons.prems(2) u]
  have "us = vs'"
  proof (rule Cons.IH[OF step(1)])
    show "m - 1 \<le> length (pool[u := pool ! (m - 1)])" using Cons.prems(2) by simp
    show "admissible (m - 1) us" using Cons.prems(3) by simp
    show "admissible (m - 1) vs'" using Cons.prems(4) vs by simp
    show "length us = length vs'" using Cons.prems(5) vs by simp
    show "sample_loop (pool[u := pool ! (m - 1)]) (m - 1) us
          = sample_loop (pool[u := pool ! (m - 1)]) (m - 1) vs'"
      using Cons.prems(6) vs ru rv uv by (simp add: Let_def)
  qed
  with uv vs show ?case by simp
qed

lemma sample_loop_surj:
  assumes "distinct (take m pool)" and "m \<le> length pool"
    and "distinct xs" and "set xs \<subseteq> set (take m pool)"
  shows "\<exists>us. admissible m us \<and> length us = length xs \<and> sample_loop pool m us = xs"
  using assms
proof (induction xs arbitrary: pool m)
  case Nil
  then show ?case by (intro exI[of _ "[]"]) simp
next
  case (Cons x xs)
  from Cons.prems(4) have "x \<in> set (take m pool)" by simp
  then obtain j where j: "j < m" and xj: "pool ! j = x"
    using Cons.prems(2) by (auto simp: in_set_conv_nth)
  note step = pool_step[OF Cons.prems(1) Cons.prems(2) j]
  have "\<exists>us. admissible (m - 1) us \<and> length us = length xs \<and>
             sample_loop (pool[j := pool ! (m - 1)]) (m - 1) us = xs"
  proof (rule Cons.IH[OF step(1)])
    show "m - 1 \<le> length (pool[j := pool ! (m - 1)])" using Cons.prems(2) by simp
    show "distinct xs" using Cons.prems(3) by simp
    show "set xs \<subseteq> set (take (m - 1) (pool[j := pool ! (m - 1)]))"
      using Cons.prems(3,4) xj unfolding step(2) by auto
  qed
  then obtain us where us: "admissible (m - 1) us" "length us = length xs"
    "sample_loop (pool[j := pool ! (m - 1)]) (m - 1) us = xs" by blast
  have "randbelow m j = j" using j by (simp add: randbelow_def)
  then have "admissible m (j # us) \<and> length (j # us) = length (x # xs) \<and>
             sample_loop pool m (j # us) = x # xs"
    using j xj us by (simp add: Let_def)
  then show ?case by blast
qed

lemma card_distinct_lists_of_set:
  assumes "finite S"
  shows "card {xs. distinct xs \<and> set xs = S} = fact (card S)"
proof -
  have eq: "{xs. distinct xs \<and> set xs = S} = {xs. length xs = card S \<and> distinct xs \<and> set xs \<subseteq> S}"
  proof (intro set_eqI iffI)
    fix xs
    assume "xs \<in> {xs. distinct xs \<and> set xs = S}"
    then have "distinct xs" and "set xs = S" by simp_all
    then show "xs \<in> {xs. length xs = card S \<and> distinct xs \<and> set xs \<subseteq> S}"
      using distinct_card[of xs] by simp
  next
    fix xs
    assume "xs \<in> {xs. length xs = card S \<and> distinct xs \<and> set xs \<subseteq> S}"
    then have l: "length xs = card S" and d: "distinct xs" and sub: "set xs \<subseteq> S"
      by simp_all
    have "card (set xs) = card S" using d l by (simp add: distinct_card)
    with sub assms have "set xs = S" by (simp add: card_subset_eq)
    with d show "xs \<in> {xs. distinct xs \<and> set xs = S}" by simp
  qed
  have "card {xs. length xs = card S \<and> distinct xs \<and> set xs \<subseteq> S} = \<Prod>{card S - card S + 1..card S}"
    using assms by (intro card_lists_distinct_length_eq) simp_all
  also have "\<dots> = fact (card S)" by (simp add: fact_prod)
  finally show ?thesis by (simp only: eq)
qed

lemma slots_pool: "distinct (take n [0..<n])" "n \<le> length [0..<n]" "set (take n [0..<n]) = {..<n}"
  by auto

lemma sample_slots_distinct:
  assumes "length us \<le> n"
  shows "distinct (sample_slots n us)" and "set (sample_slots n us) \<subseteq> {..<n}"
  using sample_loop_distinct[OF slots_pool(1,2) assms] slots_pool(3)[of n]
  unfolding sample_slots_def by simp_all

lemma sample_loop_slots:
  assumes "length us \<le> length pop"
  shows "sample_loop pop (length pop) us = map (\<lambda>i. pop ! i) (sample_slots (length pop) us)"
proof -
  have "sample_loop (map (\<lambda>i. pop ! i) [0..<length pop]) (length pop) us
        = map (\<lambda>i. pop ! i) (sample_loop [0..<length pop] (length pop) us)"
    using assms by (intro sample_loop_map) simp_all
  then show ?thesis by (simp only: map_nth sample_slots_def)
qed

lemma count_draws_for_subset:
  assumes S: "S \<subseteq> {..<n}" and k: "card S = k"
  shows "card {us \<in> draws n k. set (sample_slots n us) = S} = fact k"
proof -
  let ?A = "{us \<in> draws n k. set (sample_slots n us) = S}"
  let ?B = "{xs. distinct xs \<and> set xs = S}"
  have fin: "finite S" using S by (rule finite_subset) simp
  have "bij_betw (sample_slots n) ?A ?B"
    unfolding bij_betw_def
  proof
    show "inj_on (sample_slots n) ?A"
    proof (rule inj_onI)
      fix us vs
      assume "us \<in> ?A" and "vs \<in> ?A" and eq: "sample_slots n us = sample_slots n vs"
      then have a: "admissible n us" "admissible n vs" and l: "length us = length vs"
        by (simp_all add: draws_def)
      show "us = vs"
        using sample_loop_inj[OF slots_pool(1,2) a l] eq
        unfolding sample_slots_def by simp
    qed
    show "sample_slots n ` ?A = ?B"
    proof (intro set_eqI iffI)
      fix xs
      assume "xs \<in> sample_slots n ` ?A"
      then obtain us where us: "us \<in> draws n k" "set (sample_slots n us) = S"
        and xs: "xs = sample_slots n us" by blast
      from us(1) have "admissible n us" by (simp add: draws_def)
      then have "length us \<le> n" by (rule admissible_length)
      from sample_slots_distinct(1)[OF this] us(2) xs show "xs \<in> ?B" by simp
    next
      fix xs
      assume "xs \<in> ?B"
      then have d: "distinct xs" and sx: "set xs = S" by simp_all
      have sub: "set xs \<subseteq> set (take n [0..<n])"
        using S sx by (simp only: slots_pool(3))
      from sample_loop_surj[OF slots_pool(1,2) d sub] obtain us where
        us: "admissible n us" "length us = length xs" "sample_loop [0..<n] n us = xs"
        by blast
      have "length xs = k" using d sx k by (simp add: distinct_card[symmetric])
      with us have "us \<in> draws n k" by (simp add: draws_def)
      moreover have "sample_slots n us = xs" using us(3) by (simp add: sample_slots_def)
      ultimately show "xs \<in> sample_slots n ` ?A" using sx by force
    qed
  qed
  then have "card ?A = card ?B" by (rule bij_betw_same_card)
  also have "\<dots> = fact k" using card_distinct_lists_of_set[OF fin] k by simp
  finally show ?thesis .
qed

subsection \<open>Selection with redraws\<close>

text \<open>
  The redraw loop returns at the first answer of the generator that is not a selected
  position, and does not return when there is none.
\<close>

lemma rng_drop_drop [simp]: "rng_drop a (rng_drop b g) = rng_drop (a + b) g"
  by (simp add: rng_drop_def add.assoc)

lemma rng_drop_0 [simp]: "rng_drop 0 g = g"
  by (simp add: rng_drop_def)

lemma rng_drop_apply: "rng_drop k g i = g (i + k)"
  by (simp add: rng_drop_def)

lemma redraw_first:
  assumes "randbelow n (g q) \<notin> selected" and "\<forall>p < q. randbelow n (g p) \<in> selected"
  shows "redraw n selected g = Some (randbelow n (g q), rng_drop (Suc q) g)"
  using assms
proof (induction q arbitrary: g)
  case 0
  then show ?case by (subst redraw.simps) (simp add: Let_def)
next
  case (Suc q)
  have in0: "randbelow n (g 0) \<in> selected" using Suc.prems(2) by simp
  have "redraw n selected (rng_drop 1 g)
        = Some (randbelow n (rng_drop 1 g q), rng_drop (Suc q) (rng_drop 1 g))"
  proof (rule Suc.IH)
    show "randbelow n (rng_drop 1 g q) \<notin> selected"
      using Suc.prems(1) by (simp add: rng_drop_apply)
    show "\<forall>p<q. randbelow n (rng_drop 1 g p) \<in> selected"
      using Suc.prems(2) by (simp add: rng_drop_apply)
  qed
  then have "redraw n selected (rng_drop 1 g)
        = Some (randbelow n (g (Suc q)), rng_drop (Suc (Suc q)) g)"
    by (simp add: rng_drop_apply)
  then show ?case using in0 by (subst redraw.simps) (simp add: Let_def)
qed

lemma redraw_Some_ex:
  assumes "redraw n selected g = Some r"
  shows "\<exists>q. randbelow n (g q) \<notin> selected"
proof (rule redraw.raw_induct[where P = "\<lambda>n selected g r. \<exists>q. randbelow n (g q) \<notin> selected",
      OF _ assms])
  fix rd :: "nat \<Rightarrow> nat set \<Rightarrow> rng \<Rightarrow> (nat \<times> rng) option"
  fix n selected g r
  assume ih: "\<And>n selected g r. rd n selected g = Some r \<Longrightarrow> \<exists>q. randbelow n (g q) \<notin> selected"
  assume step: "(let j = randbelow n (g 0); g' = rng_drop 1 g
                 in if j \<in> selected then rd n selected g' else Some (j, g')) = Some r"
  show "\<exists>q. randbelow n (g q) \<notin> selected"
  proof (cases "randbelow n (g 0) \<in> selected")
    case True
    with step have "rd n selected (rng_drop 1 g) = Some r" by (simp add: Let_def)
    from ih[OF this] obtain q where "randbelow n (rng_drop 1 g q) \<notin> selected" by blast
    then have "randbelow n (g (q + 1)) \<notin> selected" by (simp add: rng_drop_apply)
    then show ?thesis by blast
  next
    case False
    then show ?thesis by blast
  qed
qed

lemma redraw_cases:
  "(\<forall>q. randbelow n (g q) \<in> selected) \<and> redraw n selected g = None \<or>
   (\<exists>q. randbelow n (g q) \<notin> selected \<and> (\<forall>p < q. randbelow n (g p) \<in> selected) \<and>
        redraw n selected g = Some (randbelow n (g q), rng_drop (Suc q) g))"
proof (cases "\<exists>q. randbelow n (g q) \<notin> selected")
  case True
  then obtain q where q: "randbelow n (g q) \<notin> selected" "\<forall>p < q. randbelow n (g p) \<in> selected"
    using exists_least_iff[of "\<lambda>q. randbelow n (g q) \<notin> selected"] by auto
  from redraw_first[OF q] q show ?thesis by blast
next
  case False
  then have all: "\<forall>q. randbelow n (g q) \<in> selected" by simp
  have "redraw n selected g = None"
  proof (cases "redraw n selected g")
    case None
    then show ?thesis .
  next
    case (Some r)
    from redraw_Some_ex[OF this] all show ?thesis by blast
  qed
  with all show ?thesis by blast
qed

lemma randbelow_less: "0 < n \<Longrightarrow> randbelow n u < n"
  by (simp add: randbelow_def)

lemma redraw_SomeD:
  assumes "redraw n selected g = Some (j, g')" and "0 < n"
  shows "j \<notin> selected" and "j < n" and "\<exists>c. g' = rng_drop (Suc c) g"
proof -
  have "j \<notin> selected \<and> j < n \<and> (\<exists>c. g' = rng_drop (Suc c) g)"
    using redraw_cases[of n g selected] assms by (auto simp: randbelow_less)
  then show "j \<notin> selected" and "j < n" and "\<exists>c. g' = rng_drop (Suc c) g" by simp_all
qed

lemma select_loop_natural:
  assumes "0 < length pop"
  shows "select_loop pop (length pop) selected k g
         = map_option (\<lambda>(slots, g'). (map (\<lambda>i. pop ! i) slots, g'))
             (select_loop [0..<length pop] (length pop) selected k g)"
proof (induction k arbitrary: selected g)
  case 0
  then show ?case by simp
next
  case (Suc k)
  show ?case
  proof (cases "redraw (length pop) selected g")
    case None
    then show ?thesis by simp
  next
    case (Some r)
    obtain j g' where r: "r = (j, g')" by (cases r)
    from redraw_SomeD(2)[OF Some[unfolded r] assms] have j: "j < length pop" .
    show ?thesis
      using Some r j Suc.IH[of "insert j selected" g']
      by (simp split: option.splits)
  qed
qed

lemma select_loop_slots:
  assumes "select_loop [0..<n] n selected k g = Some (slots, g')" and "0 < n"
  shows "length slots = k \<and> distinct slots \<and> set slots \<inter> selected = {} \<and>
         (\<forall>j \<in> set slots. j < n) \<and> (\<exists>c. g' = rng_drop c g)"
  using assms(1)
proof (induction k arbitrary: selected g slots g')
  case 0
  then have "slots = []" and "g' = rng_drop 0 g" by simp_all
  then show ?case by (intro conjI exI[of _ 0]) simp_all
next
  case (Suc k)
  from Suc.prems obtain j g1 where rd: "redraw n selected g = Some (j, g1)"
    by (auto split: option.splits)
  from Suc.prems rd obtain rest where
    rest: "select_loop [0..<n] n (insert j selected) k g1 = Some (rest, g')"
    and slots: "slots = [0..<n] ! j # rest"
    by (auto split: option.splits)
  note j = redraw_SomeD[OF rd assms(2)]
  from j(3) obtain c1 where c1: "g1 = rng_drop (Suc c1) g" by blast
  from Suc.IH[OF rest] have ih: "length rest = k" "distinct rest"
    "set rest \<inter> insert j selected = {}" "\<forall>i \<in> set rest. i < n"
    and "\<exists>c. g' = rng_drop c g1" by simp_all
  then obtain c where "g' = rng_drop c g1" by blast
  with c1 have "g' = rng_drop (c + Suc c1) g" by simp
  then have ex: "\<exists>c. g' = rng_drop c g" by blast
  have sj: "slots = j # rest" using slots j(2) by simp
  show ?case using sj ih j(1,2) ex by auto
qed

lemma fair_drop: "fair n g \<Longrightarrow> fair n (rng_drop c g)"
  unfolding fair_def
proof (intro allI impI)
  fix v p
  assume f: "\<forall>v<n. \<forall>p. \<exists>q\<ge>p. randbelow n (g q) = v" and v: "v < n"
  then obtain q where "q \<ge> p + c" and "randbelow n (g q) = v" by blast
  then have "q - c \<ge> p" and "randbelow n (rng_drop c g (q - c)) = v"
    by (simp_all add: rng_drop_apply)
  then show "\<exists>q\<ge>p. randbelow n (rng_drop c g q) = v" by blast
qed

lemma select_loop_total:
  assumes "fair n g" and "selected \<subseteq> {..<n}" and "card selected + k \<le> n"
  shows "\<exists>r. select_loop pop n selected k g = Some r"
  using assms
proof (induction k arbitrary: selected g)
  case 0
  then show ?case by simp
next
  case (Suc k)
  have fin: "finite selected" using Suc.prems(2) by (rule finite_subset) simp
  have "card selected < card {..<n}" using Suc.prems(3) by simp
  then have "selected \<noteq> {..<n}" by auto
  with Suc.prems(2) obtain v where v: "v < n" "v \<notin> selected" by auto
  then have n0: "0 < n" by simp
  from Suc.prems(1) v(1) obtain q where "randbelow n (g q) = v"
    unfolding fair_def by blast
  with v(2) have ex: "randbelow n (g q) \<notin> selected" by simp
  obtain j g1 where rd: "redraw n selected g = Some (j, g1)"
    using redraw_cases[of n g selected] ex by blast
  note j = redraw_SomeD[OF rd n0]
  from j(3) Suc.prems(1) have f1: "fair n g1" by (auto intro: fair_drop)
  have sub: "insert j selected \<subseteq> {..<n}" using j(2) Suc.prems(2) by simp
  have "card (insert j selected) + k \<le> n" using j(1) fin Suc.prems(3) by simp
  from Suc.IH[OF f1 sub this] obtain r where
    "select_loop pop n (insert j selected) k g1 = Some r" by blast
  with rd show ?case by (cases r) simp
qed

lemma randbelow_relabel:
  assumes "0 < n" and "\<forall>x < n. f x < n"
  shows "randbelow n (relabel f n u) = f (randbelow n u)"
proof -
  have "f (u mod n) < n" using assms by simp
  then show ?thesis by (simp add: randbelow_def relabel_def)
qed

lemma relabel_below: "u < n \<Longrightarrow> relabel f n u = f u"
  by (simp add: relabel_def)

lemma relabel_inverse:
  assumes "0 < n" and "\<forall>x < n. f' x < n" and "\<forall>x < n. f (f' x) = x"
  shows "relabel f n (relabel f' n u) = u"
proof -
  have l: "f' (u mod n) < n" using assms by simp
  have "(f' (u mod n) + n * (u div n)) mod n = f' (u mod n)" using l by simp
  moreover have "(f' (u mod n) + n * (u div n)) div n = u div n" using l assms(1) by simp
  moreover have "f (f' (u mod n)) = u mod n" using assms by simp
  ultimately show ?thesis by (simp add: relabel_def)
qed

lemma rng_drop_comp: "rng_drop c (f \<circ> h) = f \<circ> rng_drop c h"
  by (simp add: rng_drop_def fun_eq_iff)

lemma redraw_relabel:
  assumes n: "0 < n" and bij: "bij_betw f {..<n} {..<n}" and sel: "selected \<subseteq> {..<n}"
  shows "redraw n (f ` selected) (relabel f n \<circ> h)
         = map_option (\<lambda>(j, h'). (f j, relabel f n \<circ> h')) (redraw n selected h)"
proof -
  have range: "\<forall>x < n. f x < n" using bij by (auto simp: bij_betw_def)
  have inj: "inj_on f {..<n}" using bij by (simp add: bij_betw_def)
  have rb: "randbelow n ((relabel f n \<circ> h) q) = f (randbelow n (h q))" for q
    using randbelow_relabel[OF n range] by simp
  have mem: "f (randbelow n (h q)) \<in> f ` selected \<longleftrightarrow> randbelow n (h q) \<in> selected" for q
  proof
    assume "f (randbelow n (h q)) \<in> f ` selected"
    then obtain x where x: "x \<in> selected" "f x = f (randbelow n (h q))" by auto
    have "x \<in> {..<n}" using x(1) sel by auto
    moreover have "randbelow n (h q) \<in> {..<n}" using n by (simp add: randbelow_less)
    ultimately have "x = randbelow n (h q)" using inj x(2) by (auto dest: inj_onD)
    with x(1) show "randbelow n (h q) \<in> selected" by simp
  qed simp
  from redraw_cases[of n h selected] show ?thesis
  proof (elim disjE conjE exE)
    assume all: "\<forall>q. randbelow n (h q) \<in> selected" and none: "redraw n selected h = None"
    have "\<forall>q. randbelow n ((relabel f n \<circ> h) q) \<in> f ` selected"
      using all rb mem by simp
    with redraw_cases[of n "relabel f n \<circ> h" "f ` selected"]
    have "redraw n (f ` selected) (relabel f n \<circ> h) = None" by blast
    with none show ?thesis by simp
  next
    fix q
    assume q: "randbelow n (h q) \<notin> selected" "\<forall>p<q. randbelow n (h p) \<in> selected"
      and some: "redraw n selected h = Some (randbelow n (h q), rng_drop (Suc q) h)"
    have "randbelow n ((relabel f n \<circ> h) q) \<notin> f ` selected"
      using q(1) rb mem by simp
    moreover have "\<forall>p<q. randbelow n ((relabel f n \<circ> h) p) \<in> f ` selected"
      using q(2) rb mem by simp
    ultimately have "redraw n (f ` selected) (relabel f n \<circ> h)
        = Some (randbelow n ((relabel f n \<circ> h) q), rng_drop (Suc q) (relabel f n \<circ> h))"
      by (rule redraw_first)
    then show ?thesis using some rb by (simp add: rng_drop_comp)
  qed
qed

lemma select_loop_relabel:
  assumes n: "0 < n" and bij: "bij_betw f {..<n} {..<n}" and sel: "selected \<subseteq> {..<n}"
  shows "select_loop [0..<n] n (f ` selected) k (relabel f n \<circ> h)
         = map_option (\<lambda>(slots, h'). (map f slots, relabel f n \<circ> h'))
             (select_loop [0..<n] n selected k h)"
  using sel
proof (induction k arbitrary: selected h)
  case 0
  then show ?case by simp
next
  case (Suc k)
  have range: "\<forall>x < n. f x < n" using bij by (auto simp: bij_betw_def)
  define H where "H = relabel f n \<circ> h"
  have rr: "redraw n (f ` selected) H
            = map_option (\<lambda>(j, h'). (f j, relabel f n \<circ> h')) (redraw n selected h)"
    unfolding H_def by (rule redraw_relabel[OF n bij Suc.prems])
  have "select_loop [0..<n] n (f ` selected) (Suc k) H
         = map_option (\<lambda>(slots, h'). (map f slots, relabel f n \<circ> h'))
             (select_loop [0..<n] n selected (Suc k) h)"
  proof (cases "redraw n selected h")
    case None
    with rr show ?thesis by simp
  next
    case (Some r)
    obtain j h1 where r: "r = (j, h1)" by (cases r)
    define H1 where "H1 = relabel f n \<circ> h1"
    from redraw_SomeD(2)[OF Some[unfolded r] n] have j: "j < n" .
    then have fj: "f j < n" using range by simp
    have sub: "insert j selected \<subseteq> {..<n}" using j Suc.prems by simp
    have rr': "redraw n (f ` selected) H = Some (f j, H1)"
      using rr Some r by (simp add: H1_def)
    have ih: "select_loop [0..<n] n (insert (f j) (f ` selected)) k H1
         = map_option (\<lambda>(slots, h'). (map f slots, relabel f n \<circ> h'))
             (select_loop [0..<n] n (insert j selected) k h1)"
      unfolding H1_def using Suc.IH[OF sub, of h1] by (simp only: image_insert)
    show ?thesis
      using Some r rr' ih j fj by (simp split: option.splits)
  qed
  then show ?case unfolding H_def .
qed

lemma rng_take_prepend: "rng_take (length us) (rng_prepend us g) = us"
  by (rule nth_equalityI) (simp_all add: rng_take_def rng_prepend_def)

lemma rng_drop_prepend: "rng_drop (length us) (rng_prepend us g) = g"
  by (simp add: rng_drop_def rng_prepend_def)

lemma random_sample_pool:
  assumes "0 \<le> k" and "k \<le> int n" and "n \<le> setsize (nat k)"
  shows "random_sample [0..<n] k g
         = Some (Inr (sample_slots n (rng_take (nat k) g), rng_drop (nat k) g))"
  using assms by (simp add: random_sample_def sample_slots_def)

lemma random_sample_set:
  assumes "0 \<le> k" and "k \<le> int n" and "setsize (nat k) < n"
  shows "random_sample [0..<n] k g = map_option Inr (select_loop [0..<n] n {} (nat k) g)"
  using assms by (simp add: random_sample_def)

lemma setsize_pos: "0 < setsize k"
  by (simp add: setsize_def)

lemma random_sample_natural:
  "random_sample pop k g
   = map_option (map_sum id (\<lambda>(slots, g'). (map (\<lambda>i. pop ! i) slots, g')))
       (random_sample [0..<length pop] k g)"
proof (cases "0 \<le> k \<and> k \<le> int (length pop)")
  case False
  then show ?thesis by (auto simp: random_sample_def)
next
  case True
  show ?thesis
  proof (cases "length pop \<le> setsize (nat k)")
    case pool: True
    have "nat k \<le> length pop" using True by linarith
    then have "length (rng_take (nat k) g) \<le> length pop" by (simp add: rng_take_def)
    from sample_loop_slots[OF this] show ?thesis
      using True pool by (simp add: random_sample_def sample_slots_def Let_def)
  next
    case False
    then have "0 < length pop" using setsize_pos[of "nat k"] by linarith
    from select_loop_natural[OF this, of "{}" "nat k" g] show ?thesis
      using True False
      by (simp add: random_sample_def Let_def option.map_comp comp_def split_def)
  qed
qed

lemma decides_pool:
  assumes "0 \<le> k" and "k \<le> int n" and "n \<le> setsize (nat k)" and "length us = nat k"
  shows "decides n k us slots (nat k) \<longleftrightarrow> slots = sample_slots n us"
proof -
  have "random_sample [0..<n] k (rng_prepend us g) = Some (Inr (sample_slots n us, g))" for g
    using random_sample_pool[OF assms(1-3), of "rng_prepend us g"]
      rng_take_prepend[of us g] rng_drop_prepend[of us g] assms(4) by simp
  moreover have "rng_drop (nat k) (rng_prepend us g) = g" for g
    using rng_drop_prepend[of us g] assms(4) by simp
  ultimately show ?thesis by (auto simp: decides_def)
qed

lemma relabel_prepend:
  assumes "0 < n" and "\<forall>u \<in> set us. u < n"
    and "\<forall>x < n. f' x < n" and "\<forall>x < n. f (f' x) = x"
  shows "relabel f n \<circ> rng_prepend us (relabel f' n \<circ> g) = rng_prepend (map f us) g"
proof
  fix i
  show "(relabel f n \<circ> rng_prepend us (relabel f' n \<circ> g)) i = rng_prepend (map f us) g i"
  proof (cases "i < length us")
    case True
    then have "us ! i < n" using assms(2) by simp
    then show ?thesis using True by (simp add: rng_prepend_def relabel_below)
  next
    case False
    then show ?thesis
      using relabel_inverse[OF assms(1,3,4)] by (simp add: rng_prepend_def)
  qed
qed

lemma decides_relabel:
  assumes n: "0 < n" and bij: "bij_betw f {..<n} {..<n}"
    and k: "0 \<le> k" "k \<le> int n" and large: "setsize (nat k) < n"
    and us: "\<forall>u \<in> set us. u < n" and dec: "decides n k us slots c"
  shows "decides n k (map f us) (map f slots) c"
  unfolding decides_def
proof
  fix g
  define f' where "f' = inv_into {..<n} f"
  have inv1: "\<forall>x < n. f' x < n"
    using bij_betw_inv_into[OF bij] unfolding f'_def by (auto simp: bij_betw_def)
  have inv2: "\<forall>x < n. f (f' x) = x"
    using bij unfolding f'_def by (auto simp: bij_betw_def f_inv_into_f)
  define h where "h = rng_prepend us (relabel f' n \<circ> g)"
  have hh: "relabel f n \<circ> h = rng_prepend (map f us) g"
    unfolding h_def by (rule relabel_prepend[OF n us inv1 inv2])
  have "random_sample [0..<n] k h = Some (Inr (slots, rng_drop c h))"
    using dec unfolding decides_def h_def by blast
  then have sl: "select_loop [0..<n] n {} (nat k) h = Some (slots, rng_drop c h)"
    using random_sample_set[OF k large, of h] by auto
  have "select_loop [0..<n] n (f ` {}) (nat k) (relabel f n \<circ> h)
        = map_option (\<lambda>(slots, h'). (map f slots, relabel f n \<circ> h'))
            (select_loop [0..<n] n {} (nat k) h)"
    by (rule select_loop_relabel[OF n bij]) simp
  then have "select_loop [0..<n] n {} (nat k) (relabel f n \<circ> h)
        = Some (map f slots, rng_drop c (relabel f n \<circ> h))"
    using sl by (simp add: rng_drop_comp)
  then show "random_sample [0..<n] k (rng_prepend (map f us) g)
        = Some (Inr (map f slots, rng_drop c (rng_prepend (map f us) g)))"
    using random_sample_set[OF k large, of "relabel f n \<circ> h"] unfolding hh by simp
qed

lemma ex_relabelling:
  assumes S: "S \<subseteq> {..<n}" and S': "S' \<subseteq> {..<n::nat}" and c: "card S = card S'"
  shows "\<exists>f. bij_betw f {..<n} {..<n} \<and> f ` S = S'"
proof -
  have fS: "finite S" and fS': "finite S'" using S S' by (auto intro: finite_subset)
  from finite_same_card_bij[OF fS fS' c] obtain f1 where f1: "bij_betw f1 S S'" by blast
  have "card ({..<n} - S) = card ({..<n} - S')"
    using S S' c fS fS' by (simp add: card_Diff_subset)
  then obtain f2 where f2: "bij_betw f2 ({..<n} - S) ({..<n} - S')"
    using finite_same_card_bij[of "{..<n} - S" "{..<n} - S'"] by auto
  define f where "f x = (if x \<in> S then f1 x else f2 x)" for x
  have b1: "bij_betw f S S'"
    using f1 by (rule bij_betw_cong[THEN iffD1, rotated]) (simp add: f_def)
  have b2: "bij_betw f ({..<n} - S) ({..<n} - S')"
    using f2 by (rule bij_betw_cong[THEN iffD1, rotated]) (simp add: f_def)
  have "bij_betw f (S \<union> ({..<n} - S)) (S' \<union> ({..<n} - S'))"
    using b1 b2 by (rule bij_betw_combine) auto
  moreover have "S \<union> ({..<n} - S) = {..<n}" "S' \<union> ({..<n} - S') = {..<n}"
    using S S' by auto
  ultimately have "bij_betw f {..<n} {..<n}" by simp
  moreover have "f ` S = S'" using b1 by (simp add: bij_betw_def)
  ultimately show ?thesis by blast
qed

lemma finite_answers: "finite (answers n l)"
proof -
  have "answers n l \<subseteq> {us. set us \<subseteq> {..<n} \<and> length us = l}"
    by (auto simp: answers_def)
  moreover have "finite {us. set us \<subseteq> {..<n} \<and> length us = l}"
    by (rule finite_lists_length_eq) simp
  ultimately show ?thesis by (rule finite_subset)
qed

lemma decided_card_le:
  assumes k: "0 \<le> k" "k \<le> int n" and large: "setsize (nat k) < n"
    and S: "S \<subseteq> {..<n}" and S': "S' \<subseteq> {..<n}" and c: "card S = card S'"
  shows "card {us \<in> answers n l. \<exists>slots c. c \<le> l \<and> set slots = S \<and> decides n k us slots c}
       \<le> card {us \<in> answers n l. \<exists>slots c. c \<le> l \<and> set slots = S' \<and> decides n k us slots c}"
    (is "card ?A \<le> card ?B")
proof -
  have n: "0 < n" using large by simp
  from ex_relabelling[OF S S' c] obtain f where
    bij: "bij_betw f {..<n} {..<n}" and img: "f ` S = S'" by blast
  have range: "\<forall>x < n. f x < n" using bij by (auto simp: bij_betw_def)
  have inj: "inj_on f {..<n}" using bij by (simp add: bij_betw_def)
  have "inj_on (map f) ?A"
  proof (rule inj_on_mapI)
    have "\<Union> (set ` ?A) \<subseteq> {..<n}" by (auto simp: answers_def)
    then show "inj_on f (\<Union> (set ` ?A))" using inj by (rule inj_on_subset[rotated])
  qed
  moreover have "map f ` ?A \<subseteq> ?B"
  proof
    fix vs
    assume "vs \<in> map f ` ?A"
    then obtain us slots c where us: "us \<in> answers n l" and vs: "vs = map f us"
      and c: "c \<le> l" and sl: "set slots = S" and dec: "decides n k us slots c" by blast
    have below: "\<forall>u \<in> set us. u < n" using us by (simp add: answers_def)
    have "vs \<in> answers n l" using us vs range by (auto simp: answers_def)
    moreover have "decides n k vs (map f slots) c"
      unfolding vs by (rule decides_relabel[OF n bij k large below dec])
    moreover have "set (map f slots) = S'" using sl img by simp
    ultimately show "vs \<in> ?B" using c by blast
  qed
  moreover have "finite ?B" using finite_answers[of n l] by simp
  ultimately show ?thesis by (rule card_inj_on_le)
qed

lemma decided_card_eq:
  assumes "0 \<le> k" "k \<le> int n" and "setsize (nat k) < n"
    and "S \<subseteq> {..<n}" and "S' \<subseteq> {..<n}" and "card S = card S'"
  shows "card {us \<in> answers n l. \<exists>slots c. c \<le> l \<and> set slots = S \<and> decides n k us slots c}
       = card {us \<in> answers n l. \<exists>slots c. c \<le> l \<and> set slots = S' \<and> decides n k us slots c}"
  using decided_card_le[OF assms(1-5) assms(6), of l]
    decided_card_le[OF assms(1-3) assms(5) assms(4) assms(6)[symmetric], of l]
  by (rule order_antisym)

lemma decided_count_pool:
  assumes k: "0 \<le> k" "k \<le> int n" and small: "n \<le> setsize (nat k)"
    and S: "S \<subseteq> {..<n}" and c: "card S = nat k"
  shows "card {us \<in> draws n (nat k). \<exists>slots. set slots = S \<and> decides n k us slots (nat k)}
       = fact (nat k)"
proof -
  have "{us \<in> draws n (nat k). \<exists>slots. set slots = S \<and> decides n k us slots (nat k)}
        = {us \<in> draws n (nat k). set (sample_slots n us) = S}"
    using decides_pool[OF k small] by (auto simp: draws_def)
  then show ?thesis using count_draws_for_subset[OF S c] by simp
qed

lemma random_sample_slots:
  assumes k: "0 \<le> k" "k \<le> int n" and rs: "random_sample [0..<n] k g = Some r"
  shows "\<exists>slots c. r = Inr (slots, rng_drop c g) \<and> length slots = nat k \<and> distinct slots \<and>
           (\<forall>i \<in> set slots. i < n)"
proof (cases "n \<le> setsize (nat k)")
  case True
  let ?us = "rng_take (nat k) g"
  have l: "length ?us = nat k" by (simp add: rng_take_def)
  have le: "length ?us \<le> n" using l k by linarith
  have r: "r = Inr (sample_slots n ?us, rng_drop (nat k) g)"
    using random_sample_pool[OF k True, of g] rs by simp
  have "length (sample_slots n ?us) = nat k" using l by (simp add: sample_slots_def)
  moreover have "distinct (sample_slots n ?us)" using le by (rule sample_slots_distinct(1))
  moreover have "\<forall>i \<in> set (sample_slots n ?us). i < n"
    using sample_slots_distinct(2)[OF le] by auto
  ultimately show ?thesis using r by blast
next
  case False
  then have large: "setsize (nat k) < n" by simp
  then have n: "0 < n" by simp
  from random_sample_set[OF k large, of g] rs
  have "map_option Inr (select_loop [0..<n] n {} (nat k) g) = Some r" by simp
  then obtain p where "select_loop [0..<n] n {} (nat k) g = Some p" and "r = Inr p"
    by (cases "select_loop [0..<n] n {} (nat k) g") auto
  then obtain slots g' where
    sl: "select_loop [0..<n] n {} (nat k) g = Some (slots, g')" and r: "r = Inr (slots, g')"
    by (cases p) auto
  from select_loop_slots[OF sl n] r show ?thesis by auto
qed

lemma random_sample_returns:
  assumes k: "0 \<le> k" "k \<le> int (length pop)"
    and g: "length pop \<le> setsize (nat k) \<or> fair (length pop) g"
  shows "\<exists>r. random_sample pop k g = Some (Inr r)"
proof (cases "length pop \<le> setsize (nat k)")
  case True
  then show ?thesis using k by (simp add: random_sample_def Let_def)
next
  case False
  with g have f: "fair (length pop) g" by simp
  have "card ({}::nat set) + nat k \<le> length pop" using k by simp
  from select_loop_total[OF f _ this, of pop] obtain r where
    "select_loop pop (length pop) {} (nat k) g = Some r" by auto
  then show ?thesis using k False by (simp add: random_sample_def Let_def)
qed

lemma fair_id: "0 < n \<Longrightarrow> fair n id"
  unfolding fair_def
proof (intro allI impI)
  fix v p
  assume "0 < n" and v: "v < n"
  have "p * n + v \<ge> p" using \<open>0 < n\<close> by (simp add: trans_le_add1)
  moreover have "randbelow n (id (p * n + v)) = v" using v by (simp add: randbelow_def)
  ultimately show "\<exists>q\<ge>p. randbelow n (id q) = v" by blast
qed

lemma rng_prepend_Cons_0: "rng_prepend (x # xs) g 0 = x"
  by (simp add: rng_prepend_def)

lemma rng_drop_prepend_Cons: "rng_drop (Suc 0) (rng_prepend (x # xs) g) = rng_prepend xs g"
  by (simp add: rng_drop_def rng_prepend_def fun_eq_iff)

lemma select_loop_prefix:
  assumes "distinct xs" and "set xs \<inter> selected = {}" and "\<forall>x \<in> set xs. x < n"
  shows "select_loop [0..<n] n selected (length xs) (rng_prepend (xs @ ys) g)
         = Some (xs, rng_prepend ys g)"
  using assms
proof (induction xs arbitrary: selected)
  case Nil
  then show ?case by simp
next
  case (Cons x xs)
  let ?G = "rng_prepend ((x # xs) @ ys) g"
  have x: "x < n" "x \<notin> selected" using Cons.prems by auto
  have "randbelow n (?G 0) = x" using x(1) by (simp add: rng_prepend_Cons_0 randbelow_def)
  then have "redraw n selected ?G = Some (x, rng_drop 1 ?G)"
    using redraw_first[of n ?G 0 selected] x(2) by simp
  then have rd: "redraw n selected ?G = Some (x, rng_prepend (xs @ ys) g)"
    by (simp add: rng_drop_prepend_Cons)
  have "select_loop [0..<n] n (insert x selected) (length xs) (rng_prepend (xs @ ys) g)
        = Some (xs, rng_prepend ys g)"
    using Cons.prems by (intro Cons.IH) auto
  then show ?case using rd x(1) by simp
qed

lemma decided_nonempty:
  assumes k: "0 \<le> k" "k \<le> int n" and large: "setsize (nat k) < n"
    and S: "S \<subseteq> {..<n}" and c: "card S = nat k" and l: "nat k \<le> l"
  shows "0 < card {us \<in> answers n l. \<exists>slots c. c \<le> l \<and> set slots = S \<and> decides n k us slots c}"
    (is "0 < card ?A")
proof -
  have n: "0 < n" using large by simp
  have "finite S" using S by (rule finite_subset) simp
  then obtain xs where xs: "set xs = S" "distinct xs" using finite_distinct_list by blast
  then have lx: "length xs = nat k" using c by (simp add: distinct_card[symmetric])
  define ys where "ys = replicate (l - nat k) (0::nat)"
  have below: "\<forall>x \<in> set xs. x < n" using xs(1) S by auto
  have "decides n k (xs @ ys) xs (nat k)"
    unfolding decides_def
  proof
    fix g
    have "select_loop [0..<n] n {} (nat k) (rng_prepend (xs @ ys) g) = Some (xs, rng_prepend ys g)"
      using select_loop_prefix[OF xs(2) _ below, of "{}" ys g] lx by simp
    moreover have "rng_drop (nat k) (rng_prepend (xs @ ys) g) = rng_prepend ys g"
      using lx by (simp add: rng_drop_def rng_prepend_def fun_eq_iff nth_append)
    ultimately show "random_sample [0..<n] k (rng_prepend (xs @ ys) g)
        = Some (Inr (xs, rng_drop (nat k) (rng_prepend (xs @ ys) g)))"
      using random_sample_set[OF k large, of "rng_prepend (xs @ ys) g"] by simp
  qed
  moreover have "xs @ ys \<in> answers n l"
    using below n lx l by (auto simp: answers_def ys_def)
  ultimately have "xs @ ys \<in> ?A" using xs(1) l by blast
  moreover have "finite ?A" using finite_answers[of n l] by simp
  ultimately show ?thesis by (auto simp: card_gt_0_iff)
qed

subsection \<open>A run of the second branch\<close>

text \<open>
  A memory of 22 transitions and a sample of two: \<open>22 > setsize 2 = 21\<close>, the second
  branch. The generator answers 7, 7, 3: slot 7 is selected, the second 7 is redrawn,
  slot 3 is selected, and three answers are used.
\<close>

lemma example_generator:
  "rng_prepend [7, 7, 3] id 0 = 7" "rng_prepend [7, 7, 3] id (Suc 0) = 7"
  "rng_prepend [7, 7, 3] id (Suc (Suc 0)) = 3"
  by (simp_all add: rng_prepend_def)

lemma example_redraw_second:
  "redraw 22 {7} (rng_drop 1 (rng_prepend [7, 7, 3] id))
   = Some (3, rng_drop 3 (rng_prepend [7, 7, 3] id))"
proof -
  let ?H = "rng_drop 1 (rng_prepend [7, 7, 3] id)"
  have h0: "?H 0 = 7" and h1: "?H 1 = 3"
    by (simp_all add: rng_drop_apply example_generator)
  have a: "randbelow 22 (?H 1) \<notin> {7}" by (simp only: h1) (simp add: randbelow_def)
  have b: "\<forall>p<1. randbelow 22 (?H p) \<in> {7}"
    using h0 by (simp add: randbelow_def)
  from redraw_first[OF a b] have "redraw 22 {7} ?H = Some (randbelow 22 (?H 1), rng_drop (Suc 1) ?H)" .
  moreover have "randbelow 22 (?H 1) = 3" by (simp only: h1) (simp add: randbelow_def)
  moreover have "rng_drop (Suc 1) ?H = rng_drop 3 (rng_prepend [7, 7, 3] id)"
    by (simp only: rng_drop_drop) (simp add: numeral_3_eq_3)
  ultimately show ?thesis by (simp only:)
qed

lemma example_redraw_first:
  "redraw 22 {} (rng_prepend [7, 7, 3] id) = Some (7, rng_drop 1 (rng_prepend [7, 7, 3] id))"
  using redraw_first[of 22 "rng_prepend [7, 7, 3] id" 0 "{}"]
  by (simp add: randbelow_def example_generator)

lemma example_generator_rest: "rng_drop 3 (rng_prepend [7, 7, 3] id) = id"
  by (simp add: rng_drop_def rng_prepend_def fun_eq_iff)

lemma example_select_loop:
  "select_loop (map Some [0..<22::nat]) 22 {} (Suc (Suc 0)) (rng_prepend [7, 7, 3] id)
   = Some ([Some 7, Some 3], id)"
  by (simp only: select_loop.simps example_redraw_first example_redraw_second example_generator_rest option.case prod.case insert_is_Un[symmetric])
     simp

lemma sample_second_branch_example:
  "sample \<lparr>capacity = 22, memory = map Some [0..<22::nat], position = 0\<rparr> 2
     (rng_prepend [7, 7, 3] id)
   = Some (Inr ([Some 7, Some 3], id))"
proof -
  have "select_loop (map Some [0..<22::nat]) 22 {} 2 (rng_prepend [7, 7, 3] id)
        = Some ([Some 7, Some 3], id)"
    using example_select_loop by (simp only: numeral_2_eq_2)
  then show ?thesis
    by (simp add: sample_def random_sample_def setsize_def del: select_loop.simps)
qed

subsection \<open>Claims on sampling\<close>

text \<open>
  C3. Let \<open>0 \<le> batch_size \<le> len(memory)\<close>. Whenever \<^verbatim>\<open>sample(batch_size)\<close> returns, it
  returns \<open>batch_size\<close> entries of the memory taken from pairwise distinct slots: the
  batch is the memory read at a list \<open>slots\<close> of distinct slot numbers below the length,
  the list the library call returns on the slot numbers themselves. It returns for every
  generator when the library copies the pool (\<open>len(memory) \<le> setsize\<close>), and for every
  generator that keeps giving every position when the library redraws; a generator that
  answers with selected positions for ever keeps it redrawing. Every set of
  \<open>batch_size\<close> slots is equally likely, the answers of the generator being so: with the
  pool, each set is decided by exactly \<open>batch_size!\<close> of the admissible sequences of
  \<open>batch_size\<close> answers; with redraws, among the sequences of \<open>l\<close> answers below the
  length, as many decide one set as any other, for every \<open>l\<close>, and some do as soon as
  \<open>l \<ge> batch_size\<close>.
\<close>

theorem C3_sample_without_replacement:
  assumes "0 \<le> batch_size" and "batch_size \<le> int (len m)"
  shows
    "(\<forall>r. sample m batch_size g = Some r \<longrightarrow>
        (\<exists>slots c. r = Inr (map (\<lambda>i. memory m ! i) slots, rng_drop c g) \<and>
           random_sample [0..<len m] batch_size g = Some (Inr (slots, rng_drop c g)) \<and>
           length slots = nat batch_size \<and> distinct slots \<and> (\<forall>i \<in> set slots. i < len m) \<and>
           set (map (\<lambda>i. memory m ! i) slots) \<subseteq> set (memory m))) \<and>
     (len m \<le> setsize (nat batch_size) \<or> fair (len m) g \<longrightarrow>
        (\<exists>r. sample m batch_size g = Some (Inr r))) \<and>
     (len m \<le> setsize (nat batch_size) \<longrightarrow>
        (\<forall>S. S \<subseteq> {..<len m} \<and> card S = nat batch_size \<longrightarrow>
           card {us \<in> draws (len m) (nat batch_size).
                 \<exists>slots. set slots = S \<and> decides (len m) batch_size us slots (nat batch_size)}
             = fact (nat batch_size))) \<and>
     (setsize (nat batch_size) < len m \<longrightarrow>
        (\<forall>l S S'. S \<subseteq> {..<len m} \<and> S' \<subseteq> {..<len m} \<and>
             card S = nat batch_size \<and> card S' = nat batch_size \<longrightarrow>
           card {us \<in> answers (len m) l.
                 \<exists>slots c. c \<le> l \<and> set slots = S \<and> decides (len m) batch_size us slots c}
             = card {us \<in> answers (len m) l.
                 \<exists>slots c. c \<le> l \<and> set slots = S' \<and> decides (len m) batch_size us slots c} \<and>
           (nat batch_size \<le> l \<longrightarrow>
              0 < card {us \<in> answers (len m) l.
                 \<exists>slots c. c \<le> l \<and> set slots = S \<and> decides (len m) batch_size us slots c})))"
proof (intro conjI)
  let ?n = "len m" and ?k = "nat batch_size"
  have k: "0 \<le> batch_size" "batch_size \<le> int (length (memory m))" "batch_size \<le> int ?n"
    using assms by (simp_all add: len_def)
  have nat: "sample m batch_size g
      = map_option (map_sum id (\<lambda>(slots, g'). (map (\<lambda>i. memory m ! i) slots, g')))
          (random_sample [0..<?n] batch_size g)"
    unfolding sample_def len_def by (rule random_sample_natural)
  show "\<forall>r. sample m batch_size g = Some r \<longrightarrow>
        (\<exists>slots c. r = Inr (map (\<lambda>i. memory m ! i) slots, rng_drop c g) \<and>
           random_sample [0..<?n] batch_size g = Some (Inr (slots, rng_drop c g)) \<and>
           length slots = ?k \<and> distinct slots \<and> (\<forall>i \<in> set slots. i < ?n) \<and>
           set (map (\<lambda>i. memory m ! i) slots) \<subseteq> set (memory m))"
  proof (intro allI impI)
    fix r
    assume "sample m batch_size g = Some r"
    with nat have "map_option (map_sum id (\<lambda>(slots, g'). (map (\<lambda>i. memory m ! i) slots, g')))
          (random_sample [0..<?n] batch_size g) = Some r" by simp
    then obtain r0 where r0: "random_sample [0..<?n] batch_size g = Some r0"
      and r: "r = map_sum id (\<lambda>(slots, g'). (map (\<lambda>i. memory m ! i) slots, g')) r0"
      by (cases "random_sample [0..<?n] batch_size g") auto
    from random_sample_slots[OF k(1,3) r0] obtain slots c where
      s: "r0 = Inr (slots, rng_drop c g)" "length slots = ?k" "distinct slots"
        "\<forall>i \<in> set slots. i < ?n" by blast
    have "set (map (\<lambda>i. memory m ! i) slots) \<subseteq> set (memory m)"
      using s(4) by (auto simp: len_def)
    moreover have "r = Inr (map (\<lambda>i. memory m ! i) slots, rng_drop c g)"
      using r s(1) by simp
    ultimately show "\<exists>slots c. r = Inr (map (\<lambda>i. memory m ! i) slots, rng_drop c g) \<and>
           random_sample [0..<?n] batch_size g = Some (Inr (slots, rng_drop c g)) \<and>
           length slots = ?k \<and> distinct slots \<and> (\<forall>i \<in> set slots. i < ?n) \<and>
           set (map (\<lambda>i. memory m ! i) slots) \<subseteq> set (memory m)"
      using r0 s by blast
  qed
  show "?n \<le> setsize ?k \<or> fair ?n g \<longrightarrow> (\<exists>r. sample m batch_size g = Some (Inr r))"
    unfolding sample_def len_def using random_sample_returns[OF k(1,2)] by blast
  show "?n \<le> setsize ?k \<longrightarrow>
        (\<forall>S. S \<subseteq> {..<?n} \<and> card S = ?k \<longrightarrow>
           card {us \<in> draws ?n ?k. \<exists>slots. set slots = S \<and> decides ?n batch_size us slots ?k}
             = fact ?k)"
    using decided_count_pool[OF k(1,3)] by blast
  show "setsize ?k < ?n \<longrightarrow>
        (\<forall>l S S'. S \<subseteq> {..<?n} \<and> S' \<subseteq> {..<?n} \<and> card S = ?k \<and> card S' = ?k \<longrightarrow>
           card {us \<in> answers ?n l.
                 \<exists>slots c. c \<le> l \<and> set slots = S \<and> decides ?n batch_size us slots c}
             = card {us \<in> answers ?n l.
                 \<exists>slots c. c \<le> l \<and> set slots = S' \<and> decides ?n batch_size us slots c} \<and>
           (?k \<le> l \<longrightarrow>
              0 < card {us \<in> answers ?n l.
                 \<exists>slots c. c \<le> l \<and> set slots = S \<and> decides ?n batch_size us slots c}))"
  proof (intro impI allI conjI)
    fix l S S'
    assume large: "setsize ?k < ?n"
      and "S \<subseteq> {..<?n} \<and> S' \<subseteq> {..<?n} \<and> card S = ?k \<and> card S' = ?k"
    then have S: "S \<subseteq> {..<?n}" "S' \<subseteq> {..<?n}" "card S = card S'" and c: "card S = ?k"
      by simp_all
    from decided_card_eq[OF k(1,3) large S]
    show "card {us \<in> answers ?n l.
                 \<exists>slots c. c \<le> l \<and> set slots = S \<and> decides ?n batch_size us slots c}
             = card {us \<in> answers ?n l.
                 \<exists>slots c. c \<le> l \<and> set slots = S' \<and> decides ?n batch_size us slots c}" .
    assume "?k \<le> l"
    from decided_nonempty[OF k(1,3) large S(1) c this]
    show "0 < card {us \<in> answers ?n l.
                 \<exists>slots c. c \<le> l \<and> set slots = S \<and> decides ?n batch_size us slots c}" .
  qed
qed

theorem C3_witness:
  "(0 \<le> (2::int) \<and>
    2 \<le> int (len \<lparr>capacity = 3, memory = [Some (10::nat), Some 20, Some 30], position = 0\<rparr>) \<and>
    len \<lparr>capacity = 3, memory = [Some (10::nat), Some 20, Some 30], position = 0\<rparr>
      \<le> setsize (nat 2) \<and>
    (\<exists>slots c.
       sample \<lparr>capacity = 3, memory = [Some (10::nat), Some 20, Some 30], position = 0\<rparr> 2 id
         = Some (Inr (map (\<lambda>i. [Some 10, Some 20, Some 30] ! i) slots, rng_drop c id)) \<and>
       length slots = 2 \<and> distinct slots \<and> (\<forall>i \<in> set slots. i < 3)) \<and>
    card {us \<in> draws 3 2. \<exists>slots. set slots = {0, 2} \<and> decides 3 2 us slots 2} = fact 2) \<and>
   (2 \<le> int (len \<lparr>capacity = 22, memory = map Some [0..<22::nat], position = 0\<rparr>) \<and>
    setsize (nat 2) < len \<lparr>capacity = 22, memory = map Some [0..<22::nat], position = 0\<rparr> \<and>
    fair (len \<lparr>capacity = 22, memory = map Some [0..<22::nat], position = 0\<rparr>) id \<and>
    (\<exists>slots c.
       sample \<lparr>capacity = 22, memory = map Some [0..<22::nat], position = 0\<rparr> 2 id
         = Some (Inr (map (\<lambda>i. map Some [0..<22] ! i) slots, rng_drop c id)) \<and>
       length slots = 2 \<and> distinct slots \<and> (\<forall>i \<in> set slots. i < 22)) \<and>
    card {us \<in> answers 22 4. \<exists>slots c. c \<le> 4 \<and> set slots = {0, 1} \<and> decides 22 2 us slots c}
      = card {us \<in> answers 22 4. \<exists>slots c. c \<le> 4 \<and> set slots = {5, 9} \<and> decides 22 2 us slots c} \<and>
    0 < card {us \<in> answers 22 4. \<exists>slots c. c \<le> 4 \<and> set slots = {0, 1} \<and> decides 22 2 us slots c})"
proof -
  let ?A = "\<lparr>capacity = 3, memory = [Some (10::nat), Some 20, Some 30], position = 0\<rparr>"
  let ?B = "\<lparr>capacity = 22, memory = map Some [0..<22::nat], position = 0\<rparr>"
  have h1: "0 \<le> (2::int)" by simp
  have la: "len ?A = 3" and lb: "len ?B = 22" by (simp_all add: len_def)
  have h2a: "2 \<le> int (len ?A)" and h2b: "2 \<le> int (len ?B)" by (simp_all add: la lb)
  have small: "len ?A \<le> setsize (nat 2)" by (simp add: la setsize_def)
  have large: "setsize (nat 2) < len ?B" by (simp add: lb setsize_def)
  have fair: "fair (len ?B) id" unfolding lb by (rule fair_id) simp
  note a = C3_sample_without_replacement [OF h1 h2a, of id]
  note b = C3_sample_without_replacement [OF h1 h2b, of id]
  from a small obtain ra where ra: "sample ?A 2 id = Some (Inr ra)" by blast
  with a have pa: "\<exists>slots c.
       sample ?A 2 id = Some (Inr (map (\<lambda>i. [Some 10, Some 20, Some 30] ! i) slots, rng_drop c id)) \<and>
       length slots = 2 \<and> distinct slots \<and> (\<forall>i \<in> set slots. i < 3)"
    unfolding la by fastforce
  have sa: "{0, 2} \<subseteq> {..<len ?A} \<and> card {0, 2::nat} = nat 2" by (simp add: la)
  with a small have ca:
    "card {us \<in> draws 3 2. \<exists>slots. set slots = {0, 2} \<and> decides 3 2 us slots 2} = fact 2"
    unfolding la by fastforce
  from b fair obtain rb where rb: "sample ?B 2 id = Some (Inr rb)" by blast
  with b have pb: "\<exists>slots c.
       sample ?B 2 id = Some (Inr (map (\<lambda>i. map Some [0..<22] ! i) slots, rng_drop c id)) \<and>
       length slots = 2 \<and> distinct slots \<and> (\<forall>i \<in> set slots. i < 22)"
    unfolding lb by fastforce
  have sb: "{0, 1} \<subseteq> {..<len ?B} \<and> {5, 9} \<subseteq> {..<len ?B} \<and>
            card {0, 1::nat} = nat 2 \<and> card {5, 9::nat} = nat 2" by (simp add: lb)
  have l4: "nat 2 \<le> (4::nat)" by simp
  from b large sb l4 have cb:
    "card {us \<in> answers 22 4. \<exists>slots c. c \<le> 4 \<and> set slots = {0, 1} \<and> decides 22 2 us slots c}
      = card {us \<in> answers 22 4. \<exists>slots c. c \<le> 4 \<and> set slots = {5, 9} \<and> decides 22 2 us slots c} \<and>
    0 < card {us \<in> answers 22 4. \<exists>slots c. c \<le> 4 \<and> set slots = {0, 1} \<and> decides 22 2 us slots c}"
    unfolding lb by blast
  show ?thesis
    using h1 h2a h2b small large fair pa ca pb cb by blast
qed

text \<open>
  C4, as the code has it. \<^verbatim>\<open>sample(batch_size)\<close> raises \<^verbatim>\<open>ValueError\<close> when
  \<open>batch_size\<close> exceeds the length of the memory and also when it is negative. When
  \<open>0 \<le> batch_size \<le> len(memory)\<close> it raises nothing, and it returns a batch under the
  conditions on the generator of C3.
\<close>

theorem C4_sample_raises:
  "(int (len m) < k \<longrightarrow> sample m k g = Some (Inl ValueError)) \<and>
   (k < 0 \<longrightarrow> sample m k g = Some (Inl ValueError)) \<and>
   (0 \<le> k \<and> k \<le> int (len m) \<longrightarrow>
      (\<forall>e. sample m k g \<noteq> Some (Inl e)) \<and>
      (len m \<le> setsize (nat k) \<or> fair (len m) g \<longrightarrow> (\<exists>r. sample m k g = Some (Inr r))))"
proof (intro conjI impI)
  assume "int (len m) < k"
  then show "sample m k g = Some (Inl ValueError)"
    by (simp add: sample_def random_sample_def len_def Let_def)
next
  assume "k < 0"
  then show "sample m k g = Some (Inl ValueError)"
    by (simp add: sample_def random_sample_def len_def Let_def)
next
  assume k: "0 \<le> k \<and> k \<le> int (len m)"
  then show "\<forall>e. sample m k g \<noteq> Some (Inl e)"
    by (auto simp: sample_def random_sample_def len_def Let_def)
  assume "len m \<le> setsize (nat k) \<or> fair (len m) g"
  then show "\<exists>r. sample m k g = Some (Inr r)"
    unfolding sample_def len_def using random_sample_returns[of k "memory m" g] k
    by (simp add: len_def)
qed

theorem C4_witness:
  "(int (len \<lparr>capacity = 2, memory = [Some (10::nat), Some 20], position = 0\<rparr>) < 3 \<and>
    sample \<lparr>capacity = 2, memory = [Some (10::nat), Some 20], position = 0\<rparr> 3 id
      = Some (Inl ValueError)) \<and>
   (0 \<le> (2::int) \<and>
    2 \<le> int (len \<lparr>capacity = 2, memory = [Some (10::nat), Some 20], position = 0\<rparr>) \<and>
    len \<lparr>capacity = 2, memory = [Some (10::nat), Some 20], position = 0\<rparr> \<le> setsize (nat 2) \<and>
    (\<exists>r. sample \<lparr>capacity = 2, memory = [Some (10::nat), Some 20], position = 0\<rparr> 2 id
      = Some (Inr r)))"
  using C4_sample_raises [of "\<lparr>capacity = 2, memory = [Some (10::nat), Some 20], position = 0\<rparr>" 3 id]
    C4_sample_raises [of "\<lparr>capacity = 2, memory = [Some (10::nat), Some 20], position = 0\<rparr>" 2 id]
  by (simp add: len_def setsize_def)

text \<open>
  C4 as stated fails for a negative size: \<open>-1\<close> is at most the length of a memory of
  two transitions, and the call raises.
\<close>

theorem C4_counterexample:
  "- 1 \<le> int (len \<lparr>capacity = 2, memory = [Some (10::nat), Some 20], position = 0\<rparr>) \<and>
   sample \<lparr>capacity = 2, memory = [Some (10::nat), Some 20], position = 0\<rparr> (- 1) id
     = Some (Inl ValueError)"
  by (simp add: sample_def random_sample_def len_def Let_def)

section \<open>Properties of the training loop\<close>

lemma str_2000: "str 2000 = ''2000''"
  by (simp add: str.simps digit_char_def)

lemma str_10: "str 10 = ''10''"
  by (simp add: str.simps digit_char_def)

lemma str_Suc_10: "str (Suc (Suc (Suc (Suc (Suc (Suc (Suc (Suc (Suc (Suc 0)))))))))) = ''10''"
proof -
  have "Suc (Suc (Suc (Suc (Suc (Suc (Suc (Suc (Suc (Suc 0))))))))) = 10" by simp
  then show ?thesis by (simp only: str_10)
qed

lemma argmax_from_bound:
  "b < i \<Longrightarrow> argmax_from b bv i xs < i + length xs"
proof (induction xs arbitrary: b bv i)
  case Nil
  then show ?case by simp
next
  case (Cons x xs)
  have "argmax_from i x (Suc i) xs < Suc i + length xs"
    using Cons.IH[of i "Suc i" x] by simp
  moreover have "argmax_from b bv (Suc i) xs < Suc i + length xs"
    using Cons.IH[of b "Suc i" bv] Cons.prems by simp
  ultimately show ?case by simp
qed

lemma argmax_bound:
  "row \<noteq> [] \<Longrightarrow> \<exists>a. argmax row = Inr a \<and> a < length row"
  using argmax_from_bound[of 0 1]
  by (cases row) (auto simp: argmax_def)

subsection \<open>Claims on the training loop\<close>

text \<open>
  C6. The statements that end episode \<open>i\<close> set the parameters of the target network to
  those of the policy network when \<open>i mod TARGET_UPDATE = 0\<close>, with
  \<open>TARGET_UPDATE = 200\<close>, and leave them as they are for every other \<open>i\<close>; the
  policy network is not changed.
\<close>

theorem C6_target_sync:
  "(i mod 200 = 0 \<longrightarrow> target_net (end_of_episode i s) = policy_net s) \<and>
   (i mod 200 \<noteq> 0 \<longrightarrow> target_net (end_of_episode i s) = target_net s) \<and>
   policy_net (end_of_episode i s) = policy_net s"
  by (simp add: end_of_episode_def sync_target_def save_checkpoint_def TARGET_UPDATE_def)

theorem C6_witness:
  "((400::nat) mod 200 = 0 \<and>
    target_net (end_of_episode 400
      ((initial_state (1::nat) (0::nat) id :: (nat, nat, nat, nat) dqn)\<lparr>policy_net := 7\<rparr>)) = 7) \<and>
   ((401::nat) mod 200 \<noteq> 0 \<and>
    target_net (end_of_episode 401
      ((initial_state (1::nat) (0::nat) id :: (nat, nat, nat, nat) dqn)\<lparr>policy_net := 7\<rparr>)) = 1)"
  using C6_target_sync [of 400 "(initial_state (1::nat) (0::nat) id :: (nat, nat, nat, nat) dqn)\<lparr>policy_net := 7\<rparr>"]
    C6_target_sync [of 401 "(initial_state (1::nat) (0::nat) id :: (nat, nat, nat, nat) dqn)\<lparr>policy_net := 7\<rparr>"]
  by (simp add: initial_state_def)

text \<open>
  C7. The statements that end episode \<open>i\<close> write files exactly when \<open>i mod 1000 = 0\<close>,
  and then exactly two, in this order: the parameters of the policy network to
  \<^verbatim>\<open>policy_net_<i>.pth\<close> and those of the target network to \<^verbatim>\<open>target_net_<i>.pth\<close>,
  \<open><i>\<close> being the decimal digits of \<open>i\<close>.
\<close>

theorem C7_checkpoints:
  "(i mod 1000 = 0 \<longrightarrow>
      files (end_of_episode i s) = files s @
        [(''policy_net_'' @ str i @ ''.pth'', Weights (policy_net (end_of_episode i s))),
         (''target_net_'' @ str i @ ''.pth'', Weights (target_net (end_of_episode i s)))]) \<and>
   (i mod 1000 \<noteq> 0 \<longrightarrow> files (end_of_episode i s) = files s)"
  by (simp add: end_of_episode_def sync_target_def save_checkpoint_def)

theorem C7_witness:
  "((2000::nat) mod 1000 = 0 \<and>
    files (end_of_episode 2000
      ((initial_state (1::nat) (0::nat) id :: (nat, nat, nat, nat) dqn)\<lparr>policy_net := 7\<rparr>)) =
      [(''policy_net_2000.pth'', Weights 7), (''target_net_2000.pth'', Weights 7)]) \<and>
   ((1200::nat) mod 1000 \<noteq> 0 \<and>
    files (end_of_episode 1200
      ((initial_state (1::nat) (0::nat) id :: (nat, nat, nat, nat) dqn)\<lparr>policy_net := 7\<rparr>)) = [])"
  using C7_checkpoints [of 2000 "(initial_state (1::nat) (0::nat) id :: (nat, nat, nat, nat) dqn)\<lparr>policy_net := 7\<rparr>"]
    C7_checkpoints [of 1200 "(initial_state (1::nat) (0::nat) id :: (nat, nat, nat, nat) dqn)\<lparr>policy_net := 7\<rparr>"]
  by (simp add: initial_state_def str_2000 end_of_episode_def sync_target_def
      save_checkpoint_def TARGET_UPDATE_def)

text \<open>
  C8. The output row of the network has two entries (\<^verbatim>\<open>self.head = nn.Linear(144, 2)\<close>).
  Then every call of \<^verbatim>\<open>select_action\<close> returns \<open>0\<close> or \<open>1\<close>, on the greedy branch as on
  the random one, so the action the loop passes to the environment, two more, is
  \<open>2\<close> or \<open>3\<close> and never \<open>0\<close> or \<open>1\<close>.
\<close>

theorem C8_action_range:
  assumes "length (forward (policy_net s) st) = 2"
  shows "\<exists>a s'. select_action eps_threshold random_float forward st s = Inr (a, s') \<and>
           a \<in> {0, 1} \<and> env_action a \<in> {2, 3} \<and> env_action a \<notin> {0, 1}"
proof (cases "random_float (generator s 0) > eps_threshold (steps_done s)")
  case True
  have "forward (policy_net s) st \<noteq> []" using assms by auto
  from argmax_bound[OF this] assms obtain a where
    a: "argmax (forward (policy_net s) st) = Inr a" and "a < 2" by auto
  then have "a \<in> {0, 1}" by auto
  then show ?thesis
    using True a by (auto simp: select_action_def Let_def env_action_def)
next
  case False
  have "randbelow 2 u \<in> {0, 1}" for u
    by (auto simp: randbelow_def)
  then show ?thesis
    using False by (auto simp: select_action_def Let_def env_action_def)
qed

theorem C8_witness:
  "length ((\<lambda>net st. [1, 3 :: int]) (policy_net (initial_state (1::nat) (0::nat) id :: (nat, nat, nat, nat) dqn)) (0::nat)) = 2 \<and>
   (\<exists>a s'. select_action (\<lambda>n. 5 :: int) int (\<lambda>net st. [1, 3 :: int]) 0
              (initial_state (1::nat) (0::nat) id :: (nat, nat, nat, nat) dqn) = Inr (a, s') \<and>
      a \<in> {0, 1} \<and> env_action a \<in> {2, 3} \<and> env_action a \<notin> {0, 1})"
proof -
  have h: "length ((\<lambda>net st. [1, 3 :: int]) (policy_net (initial_state (1::nat) (0::nat) id :: (nat, nat, nat, nat) dqn)) (0::nat)) = 2"
    by simp
  show ?thesis
    using h C8_action_range [where forward = "\<lambda>net st. [1, 3 :: int]" and st = "0::nat"
        and s = "initial_state (1::nat) (0::nat) id :: (nat, nat, nat, nat) dqn"
        and eps_threshold = "\<lambda>n. 5 :: int" and random_float = int, OF h]
    by blast
qed

text \<open>
  C9. While the memory holds fewer than \<^verbatim>\<open>BATCH_SIZE\<close> transitions,
  \<^verbatim>\<open>optimize_model\<close> returns at once and leaves the whole state as it is: the memory,
  both networks, the optimizer, and the random generator, from which nothing is drawn.
\<close>

theorem C9_small_memory_no_effect:
  assumes "len (replay_memory s) < BATCH_SIZE"
  shows "optimize_model gradient_step s = Some (Inr s)"
  using assms by (simp add: optimize_model_def)

theorem C9_witness:
  "len (replay_memory (initial_state (1::nat) (0::nat) id :: (nat, nat, nat, nat) dqn)) < BATCH_SIZE \<and>
   optimize_model (\<lambda>b p t opt. Inr (p + 1, opt + 1))
     (initial_state (1::nat) (0::nat) id :: (nat, nat, nat, nat) dqn)
     = Some (Inr (initial_state 1 0 id))"
proof -
  have h: "len (replay_memory (initial_state (1::nat) (0::nat) id :: (nat, nat, nat, nat) dqn)) < BATCH_SIZE"
    by (simp add: initial_state_def ReplayMemory_init_def len_def BATCH_SIZE_def)
  show ?thesis
    using h C9_small_memory_no_effect [OF h] by simp
qed

text \<open>
  C10. When an episode ends, its duration is appended and \<^verbatim>\<open>plot_durations\<close> runs;
  with \<open>n\<close> the number of durations then recorded, the file \<^verbatim>\<open>Duration_<n>.png\<close> is
  written if \<open>n mod 10 = 0\<close>, and no file is written otherwise.
\<close>

theorem C10_plot_saved:
  "episode_durations (record_duration t s) = episode_durations s @ [t + 1] \<and>
   (length (episode_durations (record_duration t s)) mod 10 = 0 \<longrightarrow>
      files (record_duration t s) = files s @
        [(''Duration_'' @ str (length (episode_durations (record_duration t s))) @ ''.png'',
          Figure (episode_durations (record_duration t s)))]) \<and>
   (length (episode_durations (record_duration t s)) mod 10 \<noteq> 0 \<longrightarrow>
      files (record_duration t s) = files s)"
  by (simp add: record_duration_def plot_durations_def Let_def)

theorem C10_witness:
  "(length (episode_durations (record_duration 4
      ((initial_state (1::nat) (0::nat) id :: (nat, nat, nat, nat) dqn)
         \<lparr>episode_durations := [3, 3, 3, 3, 3, 3, 3, 3, 3]\<rparr>))) mod 10 = 0 \<and>
    files (record_duration 4
      ((initial_state (1::nat) (0::nat) id :: (nat, nat, nat, nat) dqn)
         \<lparr>episode_durations := [3, 3, 3, 3, 3, 3, 3, 3, 3]\<rparr>)) =
      [(''Duration_10.png'', Figure [3, 3, 3, 3, 3, 3, 3, 3, 3, 5])]) \<and>
   (length (episode_durations (record_duration 4
      (initial_state (1::nat) (0::nat) id :: (nat, nat, nat, nat) dqn))) mod 10 \<noteq> 0 \<and>
    files (record_duration 4
      (initial_state (1::nat) (0::nat) id :: (nat, nat, nat, nat) dqn)) = [])"
  using C10_plot_saved [of 4 "(initial_state (1::nat) (0::nat) id :: (nat, nat, nat, nat) dqn)
         \<lparr>episode_durations := [3, 3, 3, 3, 3, 3, 3, 3, 3]\<rparr>"]
    C10_plot_saved [of 4 "initial_state (1::nat) (0::nat) id :: (nat, nat, nat, nat) dqn"]
  by (simp add: initial_state_def str_Suc_10 record_duration_def plot_durations_def)

end
